theory Spec2Isabelle
  imports
    Main
    "HOL-Library.Word"
    "HOL-Library.Char_ord"
    "HOL-Library.List_Lexorder"
    "HOL-Library.Multiset"
begin

unbundle bit_operations_syntax

section \<open>File events (datatype.h, datatype.c)\<close>

text \<open>
  The C struct \<^verbatim>\<open>FileEvent\<close>. The two path buffers hold NUL-terminated strings of at
  most 4095 bytes; a model string is the buffer's content before the NUL. \<open>pid\<close> is a
  \<^verbatim>\<open>gint32\<close>: it is kept as a 32-bit word and read with \<open>sint\<close>.
\<close>

record FileEvent =
  action :: "8 word"
  cookie :: "32 word"
  major :: "16 word"
  minor :: "8 word"
  event_path :: string
  uid :: "32 word"
  pid :: "32 word"
  process_path :: string

definition MAX_PATH_LEN :: nat where
  "MAX_PATH_LEN = 4096"

text \<open>
  Modelled from the spec: the header \<^verbatim>\<open>vfs_change_consts.h\<close> that defines the action codes
  is not among the sources. The codes follow the order of the action table of the
  specification and of the table of names kept in event_listener.c (codes 6 and 7 are
  the merged renames, which the logger never names).
\<close>

definition ACT_NEW_FILE :: "8 word" where "ACT_NEW_FILE = 0"
definition ACT_NEW_LINK :: "8 word" where "ACT_NEW_LINK = 1"
definition ACT_NEW_SYMLINK :: "8 word" where "ACT_NEW_SYMLINK = 2"
definition ACT_NEW_FOLDER :: "8 word" where "ACT_NEW_FOLDER = 3"
definition ACT_DEL_FILE :: "8 word" where "ACT_DEL_FILE = 4"
definition ACT_DEL_FOLDER :: "8 word" where "ACT_DEL_FOLDER = 5"
definition ACT_RENAME_FROM_FILE :: "8 word" where "ACT_RENAME_FROM_FILE = 8"
definition ACT_RENAME_TO_FILE :: "8 word" where "ACT_RENAME_TO_FILE = 9"
definition ACT_RENAME_FROM_FOLDER :: "8 word" where "ACT_RENAME_FROM_FOLDER = 10"
definition ACT_RENAME_TO_FOLDER :: "8 word" where "ACT_RENAME_TO_FOLDER = 11"

text \<open>\<^verbatim>\<open>#define ACT_TERMINATE 100\<close> (event_logger.c) and \<^verbatim>\<open>#define ACT_INVALID 100\<close>
  (event_listener.c).\<close>

definition ACT_TERMINATE :: "8 word" where "ACT_TERMINATE = 100"
definition ACT_INVALID :: "8 word" where "ACT_INVALID = 100"

lemmas ACT_defs =
  ACT_NEW_FILE_def ACT_NEW_LINK_def ACT_NEW_SYMLINK_def ACT_NEW_FOLDER_def
  ACT_DEL_FILE_def ACT_DEL_FOLDER_def ACT_RENAME_FROM_FILE_def ACT_RENAME_TO_FILE_def
  ACT_RENAME_FROM_FOLDER_def ACT_RENAME_TO_FOLDER_def ACT_TERMINATE_def ACT_INVALID_def

definition event_action_to_string :: "8 word \<Rightarrow> string" where
  "event_action_to_string a =
     (if a = ACT_NEW_FILE then ''file-created''
      else if a = ACT_NEW_LINK then ''link-created''
      else if a = ACT_NEW_SYMLINK then ''symlink-created''
      else if a = ACT_NEW_FOLDER then ''folder-created''
      else if a = ACT_DEL_FILE then ''file-deleted''
      else if a = ACT_DEL_FOLDER then ''folder-deleted''
      else if a = ACT_RENAME_FROM_FILE \<or> a = ACT_RENAME_TO_FILE then ''file-renamed''
      else if a = ACT_RENAME_FROM_FOLDER \<or> a = ACT_RENAME_TO_FOLDER then ''folder-renamed''
      else ''unknown'')"

text \<open>\<^verbatim>\<open>1 << ACT_X\<close> as a \<^verbatim>\<open>guint32\<close>.\<close>

definition act_bit :: "8 word \<Rightarrow> 32 word" where
  "act_bit a = push_bit (unat a) 1"

definition G_MAXUINT32 :: "32 word" where
  "G_MAXUINT32 = 0xFFFFFFFF"

definition event_string_to_action_mask :: "string \<Rightarrow> 32 word" where
  "event_string_to_action_mask action_str =
     (if action_str = ''file-created'' then act_bit ACT_NEW_FILE
      else if action_str = ''link-created'' then act_bit ACT_NEW_LINK
      else if action_str = ''symlink-created'' then act_bit ACT_NEW_SYMLINK
      else if action_str = ''folder-created'' then act_bit ACT_NEW_FOLDER
      else if action_str = ''file-deleted'' then act_bit ACT_DEL_FILE
      else if action_str = ''folder-deleted'' then act_bit ACT_DEL_FOLDER
      else if action_str = ''file-renamed''
        then act_bit ACT_RENAME_FROM_FILE OR act_bit ACT_RENAME_TO_FILE
      else if action_str = ''folder-renamed''
        then act_bit ACT_RENAME_FROM_FOLDER OR act_bit ACT_RENAME_TO_FOLDER
      else G_MAXUINT32)"


section \<open>Formatted output (printf conversions)\<close>

text \<open>The decimal digits of a natural number, as \<^verbatim>\<open>%u\<close> and \<^verbatim>\<open>%lu\<close> print them.\<close>

fun dec :: "nat \<Rightarrow> string" where
  "dec n = (if n < 10 then [''0123456789'' ! n]
            else dec (n div 10) @ [''0123456789'' ! (n mod 10)])"

declare dec.simps [simp del]

text \<open>\<^verbatim>\<open>%d\<close>: a minus sign and the digits of the magnitude.\<close>

definition printf_d :: "int \<Rightarrow> string" where
  "printf_d i = (if i < 0 then CHR ''-'' # dec (nat (- i)) else dec (nat i))"

text \<open>\<^verbatim>\<open>%0wd\<close>: zero padding to the field width \<open>w\<close>, the sign counted in the width.\<close>

definition zero_pad :: "nat \<Rightarrow> string \<Rightarrow> string" where
  "zero_pad w s = replicate (w - length s) CHR ''0'' @ s"

definition printf_0d :: "nat \<Rightarrow> int \<Rightarrow> string" where
  "printf_0d w i =
     (if i < 0 then CHR ''-'' # zero_pad (w - 1) (dec (nat (- i)))
      else zero_pad w (dec (nat i)))"


section \<open>The event worker (event_logger.c)\<close>

subsection \<open>Time stamps\<close>

text \<open>
  What \<^verbatim>\<open>gettimeofday\<close> and \<^verbatim>\<open>localtime\<close> give to one call of
  \<^verbatim>\<open>get_timestamp_string\<close>: either of them may fail; otherwise the broken-down local
  time and the microseconds.
\<close>

record tm =
  tm_year :: int
  tm_mon :: int
  tm_mday :: int
  tm_hour :: int
  tm_min :: int
  tm_sec :: int

datatype clock_reading =
    GettimeofdayFailed
  | LocaltimeFailed
  | Now tm int

text \<open>C division truncates towards zero.\<close>

definition c_div :: "int \<Rightarrow> int \<Rightarrow> int" where
  "c_div a b = sgn a * sgn b * (\<bar>a\<bar> div \<bar>b\<bar>)"

definition TIMESTAMP_BUFFER_SIZE :: nat where
  "TIMESTAMP_BUFFER_SIZE = 128"

definition get_timestamp_string :: "clock_reading \<Rightarrow> string" where
  "get_timestamp_string r =
     (case r of
        GettimeofdayFailed \<Rightarrow> ''1970-01-01 00:00:00.000''
      | LocaltimeFailed \<Rightarrow> ''1970-01-01 00:00:00.000''
      | Now t usec \<Rightarrow>
          take (TIMESTAMP_BUFFER_SIZE - 1)
            (printf_0d 4 (tm_year t + 1900) @ ''-'' @ printf_0d 2 (tm_mon t + 1) @ ''-'' @
             printf_0d 2 (tm_mday t) @ '' '' @ printf_0d 2 (tm_hour t) @ '':'' @
             printf_0d 2 (tm_min t) @ '':'' @ printf_0d 2 (tm_sec t) @ ''.'' @
             printf_0d 3 (c_div usec 1000)))"

subsection \<open>CSV escaping and formatting\<close>

abbreviation DQUOTE :: char where "DQUOTE \<equiv> CHR 0x22"
abbreviation COMMA :: char where "COMMA \<equiv> CHR 0x2C"
abbreviation LF :: char where "LF \<equiv> CHR 0x0A"
abbreviation CR :: char where "CR \<equiv> CHR 0x0D"

text \<open>The characters of the \<^verbatim>\<open>strpbrk\<close> set \<^verbatim>\<open>",\"\n\r"\<close>.\<close>

definition csv_special :: "char \<Rightarrow> bool" where
  "csv_special c = (c = COMMA \<or> c = DQUOTE \<or> c = LF \<or> c = CR)"

text \<open>The loop of \<^verbatim>\<open>escape_csv_field\<close>: every double quote is written twice.\<close>

fun double_quotes :: "string \<Rightarrow> string" where
  "double_quotes [] = []"
| "double_quotes (c # cs) =
     (if c = DQUOTE then DQUOTE # DQUOTE # double_quotes cs else c # double_quotes cs)"

text \<open>\<^verbatim>\<open>NULL\<close> (no escaping needed) is \<open>None\<close>.\<close>

definition escape_csv_field :: "string \<Rightarrow> string option" where
  "escape_csv_field field =
     (if \<not> list_ex csv_special field then None
      else Some (DQUOTE # double_quotes field @ [DQUOTE]))"

text \<open>\<^verbatim>\<open>escaped ? escaped : original\<close>, as the two formatting functions write it.\<close>

definition escaped_or_original :: "string \<Rightarrow> string" where
  "escaped_or_original field =
     (case escape_csv_field field of None \<Rightarrow> field | Some e \<Rightarrow> e)"

text \<open>
  The result of \<^verbatim>\<open>validate_file_event\<close> and the messages it gives to \<^verbatim>\<open>g_warning\<close>. The
  events of the model are never \<^verbatim>\<open>NULL\<close>.
\<close>

definition validate_file_event :: "FileEvent \<Rightarrow> bool \<times> string list" where
  "validate_file_event event =
     (if length (process_path event) = 0
      then (False, [''FileEvent has invalid process_path''])
      else if length (event_path event) = 0
      then (False, [''FileEvent has invalid event_path''])
      else if sint (pid event) \<le> 0
      then (False, [''FileEvent has invalid PID: '' @ printf_d (sint (pid event))])
      else (True, []))"

definition format_single_event_csv :: "clock_reading \<Rightarrow> FileEvent \<Rightarrow> string" where
  "format_single_event_csv now event =
     get_timestamp_string now @ '','' @
     escaped_or_original (process_path event) @ '','' @
     dec (unat (uid event)) @ '','' @
     printf_d (sint (pid event)) @ '','' @
     event_action_to_string (action event) @ '','' @
     escaped_or_original (event_path event) @ [LF]"

definition format_rename_event_csv :: "clock_reading \<Rightarrow> FileEvent \<Rightarrow> FileEvent \<Rightarrow> string" where
  "format_rename_event_csv now from_event to_event =
     get_timestamp_string now @ '','' @
     escaped_or_original (process_path from_event) @ '','' @
     dec (unat (uid from_event)) @ '','' @
     printf_d (sint (pid from_event)) @ '','' @
     event_action_to_string (action from_event) @ '','' @
     escaped_or_original (event_path from_event) @ '','' @
     escaped_or_original (event_path to_event) @ [LF]"

subsection \<open>The logger and its worker thread\<close>

text \<open>
  The struct \<^verbatim>\<open>EventLogger\<close>. The callback \<^verbatim>\<open>log_handler\<close> is represented by the list
  \<open>log_lines\<close> of the lines handed to it, oldest first, and \<open>clock_calls\<close> counts the
  calls of \<^verbatim>\<open>get_timestamp_string\<close>, so that the \<open>k\<close>-th call reads \<open>clk k\<close> of a clock
  \<open>clk\<close> given from outside. \<open>warnings\<close> lists the messages that the worker and its
  validation have given to \<^verbatim>\<open>g_warning\<close>, oldest first; what goes to \<^verbatim>\<open>g_message\<close> and
  \<^verbatim>\<open>g_debug\<close> is not kept.
\<close>

record EventLogger =
  event_queue :: "FileEvent list"
  is_running :: bool
  rename_events :: "32 word \<rightharpoonup> FileEvent"
  log_lines :: "string list"
  clock_calls :: nat
  warnings :: "string list"

type_synonym clock = "nat \<Rightarrow> clock_reading"

definition log_handler :: "string \<Rightarrow> EventLogger \<Rightarrow> EventLogger" where
  "log_handler csv_line logger = logger\<lparr>log_lines := log_lines logger @ [csv_line]\<rparr>"

definition is_rename_from :: "8 word \<Rightarrow> bool" where
  "is_rename_from a = (a = ACT_RENAME_FROM_FILE \<or> a = ACT_RENAME_FROM_FOLDER)"

definition is_rename_to :: "8 word \<Rightarrow> bool" where
  "is_rename_to a = (a = ACT_RENAME_TO_FILE \<or> a = ACT_RENAME_TO_FOLDER)"

definition handle_rename_event :: "clock \<Rightarrow> EventLogger \<Rightarrow> FileEvent \<Rightarrow> EventLogger" where
  "handle_rename_event clk logger event =
     (case rename_events logger (cookie event) of
        None \<Rightarrow>
          if is_rename_from (action event)
          then logger\<lparr>rename_events := (rename_events logger)(cookie event \<mapsto> event)\<rparr>
          else logger
      | Some from_event \<Rightarrow>
          (let logger1 =
             (if is_rename_from (action from_event) \<and> is_rename_to (action event)
              then log_handler
                     (format_rename_event_csv (clk (clock_calls logger)) from_event event)
                     (logger\<lparr>clock_calls := Suc (clock_calls logger)\<rparr>)
              else logger)
           in logger1\<lparr>rename_events := (rename_events logger1)(cookie event := None)\<rparr>))"

text \<open>
  How \<^verbatim>\<open>worker_thread_func\<close> leaves its loop: it returns (the loop condition failed or
  the termination event arrived), or it is blocked in \<^verbatim>\<open>g_async_queue_pop\<close> on an
  empty queue.
\<close>

datatype worker_status = Returned | Blocked

text \<open>
  The loop of \<^verbatim>\<open>worker_thread_func\<close> over the events that are in the queue, in the
  order in which \<^verbatim>\<open>g_async_queue_pop\<close> delivers them. The result is the status, the
  events left in the queue and the logger. The queue never holds \<^verbatim>\<open>NULL\<close>
  (\<^verbatim>\<open>event_logger_log_event\<close> rejects it), so that branch of the loop is not modelled.
\<close>

fun worker_loop ::
  "clock \<Rightarrow> FileEvent list \<Rightarrow> EventLogger \<Rightarrow> worker_status \<times> FileEvent list \<times> EventLogger"
where
  "worker_loop clk [] logger =
     (if is_running logger then (Blocked, [], logger) else (Returned, [], logger))"
| "worker_loop clk (event # queue) logger =
     (if \<not> is_running logger then (Returned, event # queue, logger)
      else if action event = ACT_TERMINATE then (Returned, queue, logger)
      else case validate_file_event event of
        (valid, validation_warnings) \<Rightarrow>
          if \<not> valid
          then worker_loop clk queue
                 (logger\<lparr>warnings := warnings logger @ validation_warnings @
                                       [''Discarding invalid event'']\<rparr>)
          else if action event = ACT_RENAME_FROM_FILE \<or> action event = ACT_RENAME_TO_FILE \<or>
                  action event = ACT_RENAME_FROM_FOLDER \<or> action event = ACT_RENAME_TO_FOLDER
            then worker_loop clk queue (handle_rename_event clk logger event)
          else worker_loop clk queue
                 (log_handler (format_single_event_csv (clk (clock_calls logger)) event)
                    (logger\<lparr>clock_calls := Suc (clock_calls logger)\<rparr>)))"

definition worker_thread_func :: "clock \<Rightarrow> EventLogger \<Rightarrow> worker_status \<times> EventLogger" where
  "worker_thread_func clk logger =
     (case worker_loop clk (event_queue logger) (logger\<lparr>event_queue := []\<rparr>) of
        (status, queue, logger') \<Rightarrow> (status, logger'\<lparr>event_queue := queue\<rparr>))"

definition event_logger_new :: EventLogger where
  "event_logger_new =
     \<lparr>event_queue = [], is_running = False, rename_events = Map.empty,
      log_lines = [], clock_calls = 0, warnings = []\<rparr>"

text \<open>\<^verbatim>\<open>g_return_if_fail\<close> rejects a \<^verbatim>\<open>NULL\<close> event; the model's events are never \<^verbatim>\<open>NULL\<close>.\<close>

definition event_logger_log_event :: "EventLogger \<Rightarrow> FileEvent \<Rightarrow> EventLogger" where
  "event_logger_log_event logger event =
     (if \<not> is_running logger then logger
      else logger\<lparr>event_queue := event_queue logger @ [event]\<rparr>)"


text \<open>The logger that the worker leaves behind when it has consumed \<open>events\<close>.\<close>

definition after_events :: "clock \<Rightarrow> FileEvent list \<Rightarrow> EventLogger \<Rightarrow> EventLogger" where
  "after_events clk events logger = snd (snd (worker_loop clk events logger))"

definition is_rename :: "8 word \<Rightarrow> bool" where
  "is_rename a = (a = ACT_RENAME_FROM_FILE \<or> a = ACT_RENAME_TO_FILE \<or>
                  a = ACT_RENAME_FROM_FOLDER \<or> a = ACT_RENAME_TO_FOLDER)"

text \<open>
  An event that does not stop the worker and does not reach the pending entry of the
  cookie \<open>c\<close>: it is not the termination event, and it is not a rename event of
  cookie \<open>c\<close> that passes validation.
\<close>

definition leaves_cookie :: "32 word \<Rightarrow> FileEvent \<Rightarrow> bool" where
  "leaves_cookie c e =
     (action e \<noteq> ACT_TERMINATE \<and>
      \<not> (fst (validate_file_event e) \<and> is_rename (action e) \<and> cookie e = c))"

definition pend :: "32 word \<Rightarrow> FileEvent \<Rightarrow> EventLogger \<Rightarrow> EventLogger" where
  "pend c f logger = logger\<lparr>rename_events := (rename_events logger)(c \<mapsto> f)\<rparr>"

subsection \<open>Sample inputs\<close>

text \<open>The events of the scenarios S1, S3 and S4 of the specification, and a clock.\<close>

definition sample_clock :: clock where
  "sample_clock k =
     Now \<lparr>tm_year = 125, tm_mon = 10, tm_mday = 2, tm_hour = 9, tm_min = 30,
          tm_sec = int k\<rparr> 123456"

definition running_logger :: EventLogger where
  "running_logger = event_logger_new\<lparr>is_running := True\<rparr>"

definition touch_event :: FileEvent where
  "touch_event =
     \<lparr>action = ACT_NEW_FILE, cookie = 0, major = 8, minor = 1, event_path = ''/tmp/a'',
      uid = 1000, pid = 42, process_path = ''/usr/bin/touch''\<rparr>"

definition mv_from_event :: FileEvent where
  "mv_from_event =
     \<lparr>action = ACT_RENAME_FROM_FILE, cookie = 7, major = 8, minor = 1,
      event_path = ''/x/old'', uid = 1000, pid = 43, process_path = ''/bin/mv''\<rparr>"

definition mv_to_event :: FileEvent where
  "mv_to_event =
     \<lparr>action = ACT_RENAME_TO_FILE, cookie = 7, major = 8, minor = 1,
      event_path = ''/x/new'', uid = 1000, pid = 43, process_path = ''/bin/mv''\<rparr>"

definition bad_pid_event :: FileEvent where
  "bad_pid_event = touch_event\<lparr>pid := 0\<rparr>"

definition invalid_action_event :: FileEvent where
  "invalid_action_event = touch_event\<lparr>action := ACT_INVALID\<rparr>"


section \<open>A reader of RFC 4180 records\<close>

text \<open>
  The reference against which the escaping is judged: a reader of one CSV record after
  the grammar of RFC 4180. A field is either quoted (it starts with a double quote,
  ends at the next double quote that is not doubled, and a doubled double quote stands
  for one) or plain (it ends before the next comma or line break and holds no double
  quote). The reader is liberal where readers are: a record ends at LF as well as at
  CR LF or at the end of the input, and every byte other than comma, double quote, CR
  and LF is text.
\<close>

datatype csv_mode = AtStart | InPlain | InQuoted | AfterQuote | AfterCR | AtEnd

type_synonym csv_state = "csv_mode \<times> string \<times> string list"

fun rfc4180_step :: "csv_state \<Rightarrow> char \<Rightarrow> csv_state option" where
  "rfc4180_step (AtStart, cur, fs) c =
     (if c = DQUOTE then Some (InQuoted, [], fs)
      else if c = COMMA then Some (AtStart, [], fs @ [[]])
      else if c = LF then Some (AtEnd, [], fs @ [[]])
      else if c = CR then Some (AfterCR, [], fs @ [[]])
      else Some (InPlain, [c], fs))"
| "rfc4180_step (InPlain, cur, fs) c =
     (if c = DQUOTE then None
      else if c = COMMA then Some (AtStart, [], fs @ [cur])
      else if c = LF then Some (AtEnd, [], fs @ [cur])
      else if c = CR then Some (AfterCR, [], fs @ [cur])
      else Some (InPlain, cur @ [c], fs))"
| "rfc4180_step (InQuoted, cur, fs) c =
     (if c = DQUOTE then Some (AfterQuote, cur, fs)
      else Some (InQuoted, cur @ [c], fs))"
| "rfc4180_step (AfterQuote, cur, fs) c =
     (if c = DQUOTE then Some (InQuoted, cur @ [DQUOTE], fs)
      else if c = COMMA then Some (AtStart, [], fs @ [cur])
      else if c = LF then Some (AtEnd, [], fs @ [cur])
      else if c = CR then Some (AfterCR, [], fs @ [cur])
      else None)"
| "rfc4180_step (AfterCR, cur, fs) c =
     (if c = LF then Some (AtEnd, [], fs) else None)"
| "rfc4180_step (AtEnd, cur, fs) c = None"

text \<open>The state is the mode, the field being read and the fields read so far.\<close>

fun rfc4180_run :: "csv_state \<Rightarrow> string \<Rightarrow> csv_state option" where
  "rfc4180_run s [] = Some s"
| "rfc4180_run s (c # cs) =
     (case rfc4180_step s c of None \<Rightarrow> None | Some s' \<Rightarrow> rfc4180_run s' cs)"

definition rfc4180_parse_record :: "string \<Rightarrow> string list option" where
  "rfc4180_parse_record line =
     (case rfc4180_run (AtStart, [], []) line of
        None \<Rightarrow> None
      | Some (AtEnd, cur, fs) \<Rightarrow> Some fs
      | Some (AtStart, cur, fs) \<Rightarrow> Some (fs @ [cur])
      | Some (InPlain, cur, fs) \<Rightarrow> Some (fs @ [cur])
      | Some (AfterQuote, cur, fs) \<Rightarrow> Some (fs @ [cur])
      | Some (InQuoted, cur, fs) \<Rightarrow> None
      | Some (AfterCR, cur, fs) \<Rightarrow> None)"


section \<open>The configuration cache (dconfig.c, config.c)\<close>

subsection \<open>The configuration bus\<close>

text \<open>
  A value as the bus delivers it. The conversion of a double is floating point; the
  model takes its outcome: the value truncated to an integer when it lies between
  \<^verbatim>\<open>G_MININT\<close> and \<^verbatim>\<open>G_MAXINT\<close>, and \<open>None\<close> otherwise. An array of variants is the
  list of its elements, each a string or something else (\<open>None\<close>).
\<close>

datatype gvariant =
    V_boolean bool
  | V_int32 "32 word"
  | V_int64 "64 word"
  | V_double "int option"
  | V_string_array "string list"
  | V_array "string option list"
  | V_other

text \<open>The answer of \<^verbatim>\<open>g_dbus_connection_call_sync\<close> to the method \<^verbatim>\<open>value\<close>.\<close>

datatype dbus_reply = CallFailed | Reply gvariant

type_synonym config_bus = "string \<Rightarrow> dbus_reply"

text \<open>
  The struct \<^verbatim>\<open>DConfig\<close>, as far as the readers use it: \<open>is_valid\<close> and the bus behind
  the connection.
\<close>

record DConfig =
  is_valid :: bool
  bus :: config_bus

text \<open>
  \<^verbatim>\<open>dconfig_get_dconfig_value\<close>: \<open>None\<close> is \<^verbatim>\<open>NULL\<close>; the second component tells whether
  the error was set. An empty key fails the \<^verbatim>\<open>g_return_val_if_fail\<close> without an error.
\<close>

definition dconfig_get_dconfig_value :: "DConfig \<Rightarrow> string \<Rightarrow> gvariant option \<times> bool" where
  "dconfig_get_dconfig_value dconfig key =
     (if key = [] then (None, False)
      else case bus dconfig key of
             CallFailed \<Rightarrow> (None, True)
           | Reply v \<Rightarrow> (Some v, False))"

definition dconfig_get_boolean :: "DConfig \<Rightarrow> string \<Rightarrow> bool \<times> bool" where
  "dconfig_get_boolean dconfig key =
     (if \<not> is_valid dconfig then (False, True)
      else case dconfig_get_dconfig_value dconfig key of
             (None, err) \<Rightarrow> (False, err)
           | (Some v, err) \<Rightarrow>
               (case v of V_boolean b \<Rightarrow> (b, False) | _ \<Rightarrow> (False, True)))"

definition G_MININT :: int where "G_MININT = - (2 ^ 31)"
definition G_MAXINT :: int where "G_MAXINT = 2 ^ 31 - 1"

text \<open>The result is a \<^verbatim>\<open>gint\<close>, kept as a 32-bit word, and whether the error was set.\<close>

definition dconfig_get_int :: "DConfig \<Rightarrow> string \<Rightarrow> 32 word \<times> bool" where
  "dconfig_get_int dconfig key =
     (if \<not> is_valid dconfig then (0, True)
      else case dconfig_get_dconfig_value dconfig key of
             (None, err) \<Rightarrow> (0, err)
           | (Some v, err) \<Rightarrow>
               (case v of
                  V_int32 x \<Rightarrow> (x, False)
                | V_int64 y \<Rightarrow>
                    if G_MININT \<le> sint y \<and> sint y \<le> G_MAXINT then (ucast y, False)
                    else (0, True)
                | V_double None \<Rightarrow> (0, True)
                | V_double (Some t) \<Rightarrow> (word_of_int t, False)
                | _ \<Rightarrow> (0, True)))"

definition dconfig_get_string_array :: "DConfig \<Rightarrow> string \<Rightarrow> string list option \<times> bool" where
  "dconfig_get_string_array dconfig key =
     (if \<not> is_valid dconfig then (None, True)
      else case dconfig_get_dconfig_value dconfig key of
             (None, err) \<Rightarrow> (None, err)
           | (Some v, err) \<Rightarrow>
               (case v of
                  V_string_array xs \<Rightarrow> (Some xs, False)
                | V_array items \<Rightarrow> (Some (List.map_filter (\<lambda>i. i) items), False)
                | _ \<Rightarrow> (None, True)))"

subsection \<open>The cache\<close>

definition LOG_EVENTS_DEFAULT :: bool where "LOG_EVENTS_DEFAULT = True"
definition LOG_EVENTS_TYPE_DEFAULT :: "string list" where
  "LOG_EVENTS_TYPE_DEFAULT = [''file-deleted'', ''folder-deleted'']"
definition LOG_FILE_COUNT_DEFAULT :: "32 word" where "LOG_FILE_COUNT_DEFAULT = 10"
definition LOG_FILE_SIZE_DEFAULT :: "32 word" where "LOG_FILE_SIZE_DEFAULT = 50"
definition PRINT_DEBUG_LOG_DEFAULT :: bool where "PRINT_DEBUG_LOG_DEFAULT = False"
definition DISABLE_EVENT_MERGE_DEFAULT :: bool where "DISABLE_EVENT_MERGE_DEFAULT = False"
definition LOG_FILE_COUNT_MAX :: "32 word" where "LOG_FILE_COUNT_MAX = 20"
definition LOG_FILE_SIZE_MAX :: "32 word" where "LOG_FILE_SIZE_MAX = 100"

text \<open>
  The struct \<^verbatim>\<open>_Config\<close>. The numbers are \<^verbatim>\<open>guint\<close>. \<open>change_handler\<close> tells whether
  a handler is set, and \<open>notified\<close> lists the keys it was called with, oldest first.
\<close>

record Config =
  dconfig :: DConfig
  change_handler :: bool
  log_events :: bool
  log_events_type :: "32 word"
  log_file_count :: "32 word"
  log_file_size :: "32 word"
  print_debug_log :: bool
  disable_event_merge :: bool
  notified :: "string list"

text \<open>The loop of \<^verbatim>\<open>config_log_events_type_from_string\<close> over the array.\<close>

fun log_events_type_loop :: "32 word \<Rightarrow> string list \<Rightarrow> 32 word" where
  "log_events_type_loop acc [] = acc"
| "log_events_type_loop acc (t # ts) =
     (let action_mask = event_string_to_action_mask t
      in if action_mask \<noteq> G_MAXUINT32
         then log_events_type_loop (acc OR action_mask) ts
         else log_events_type_loop acc ts)"

definition config_log_events_type_from_string :: "string list option \<Rightarrow> 32 word" where
  "config_log_events_type_from_string event_types =
     (case event_types of None \<Rightarrow> 0 | Some ts \<Rightarrow> log_events_type_loop 0 ts)"

definition config_load_all_values :: "Config \<Rightarrow> Config" where
  "config_load_all_values config =
     (let d = dconfig config;
          (b1, e1) = dconfig_get_boolean d ''log_events'';
          c1 = config\<lparr>log_events := (if e1 then LOG_EVENTS_DEFAULT else b1)\<rparr>;
          (b2, e2) = dconfig_get_boolean d ''print_debug_log'';
          c2 = c1\<lparr>print_debug_log := (if e2 then PRINT_DEBUG_LOG_DEFAULT else b2)\<rparr>;
          (b3, e3) = dconfig_get_boolean d ''disable_event_merge'';
          c3 = c2\<lparr>disable_event_merge := (if e3 then DISABLE_EVENT_MERGE_DEFAULT else b3)\<rparr>;
          (n4, e4) = dconfig_get_int d ''log_file_count'';
          file_count = (if e4 then LOG_FILE_COUNT_DEFAULT else n4);
          c4 = c3\<lparr>log_file_count :=
                    (if file_count > LOG_FILE_COUNT_MAX then LOG_FILE_COUNT_MAX else file_count)\<rparr>;
          (n5, e5) = dconfig_get_int d ''log_file_size'';
          file_size = (if e5 then LOG_FILE_SIZE_DEFAULT else n5);
          c5 = c4\<lparr>log_file_size :=
                    (if file_size > LOG_FILE_SIZE_MAX then LOG_FILE_SIZE_MAX else file_size)\<rparr>;
          (a6, e6) = dconfig_get_string_array d ''log_events_type'';
          event_types = (if e6 then Some LOG_EVENTS_TYPE_DEFAULT else a6)
      in c5\<lparr>log_events_type := config_log_events_type_from_string event_types\<rparr>)"

text \<open>The end of the handler: the change handler is told, if one is set.\<close>

definition notify_change :: "string \<Rightarrow> Config \<Rightarrow> Config" where
  "notify_change key config =
     (if change_handler config then config\<lparr>notified := notified config @ [key]\<rparr> else config)"

definition config_dconfig_changed_handler :: "string \<Rightarrow> Config \<Rightarrow> Config" where
  "config_dconfig_changed_handler key config =
     (let d = dconfig config in
      if key = ''log_events'' then
        (case dconfig_get_boolean d key of
           (b, err) \<Rightarrow>
             if \<not> err then notify_change key (config\<lparr>log_events := b\<rparr>)
             else config\<lparr>log_events := b\<rparr>)
      else if key = ''log_events_type'' then
        (case dconfig_get_string_array d key of
           (event_types, err) \<Rightarrow>
             if \<not> err \<and> event_types \<noteq> None
             then notify_change key
                    (config\<lparr>log_events_type := config_log_events_type_from_string event_types\<rparr>)
             else config)
      else if key = ''log_file_count'' then
        (case dconfig_get_int d key of
           (n, err) \<Rightarrow>
             if \<not> err then
               (let new_count = (if n > LOG_FILE_COUNT_MAX then LOG_FILE_COUNT_MAX else n)
                in if log_file_count config = new_count then config
                   else notify_change key (config\<lparr>log_file_count := new_count\<rparr>))
             else config)
      else if key = ''log_file_size'' then
        (case dconfig_get_int d key of
           (n, err) \<Rightarrow>
             if \<not> err then
               (let new_size = (if n > LOG_FILE_SIZE_MAX then LOG_FILE_SIZE_MAX else n)
                in if log_file_size config = new_size then config
                   else notify_change key (config\<lparr>log_file_size := new_size\<rparr>))
             else config)
      else if key = ''print_debug_log'' then
        (case dconfig_get_boolean d key of
           (b, err) \<Rightarrow>
             if \<not> err then notify_change key (config\<lparr>print_debug_log := b\<rparr>)
             else config\<lparr>print_debug_log := b\<rparr>)
      else if key = ''disable_event_merge'' then
        (case dconfig_get_boolean d key of
           (b, err) \<Rightarrow>
             if \<not> err then notify_change key (config\<lparr>disable_event_merge := b\<rparr>)
             else config\<lparr>disable_event_merge := b\<rparr>)
      else config)"

text \<open>
  \<^verbatim>\<open>config_new\<close>: the structure is allocated zeroed, the connection to the bus may fail
  (\<open>None\<close> is \<^verbatim>\<open>NULL\<close>), and the values are loaded.
\<close>

definition config_new :: "config_bus option \<Rightarrow> Config option" where
  "config_new connection =
     (case connection of
        None \<Rightarrow> None
      | Some b \<Rightarrow>
          Some (config_load_all_values
                  \<lparr>dconfig = \<lparr>is_valid = True, bus = b\<rparr>, change_handler = False,
                   log_events = False, log_events_type = 0, log_file_count = 0,
                   log_file_size = 0, print_debug_log = False, disable_event_merge = False,
                   notified = []\<rparr>))"

text \<open>
  The cache after a run of change notifications: before each one the bus may have
  changed what it answers.
\<close>

fun config_changes :: "(config_bus \<times> string) list \<Rightarrow> Config \<Rightarrow> Config" where
  "config_changes [] config = config"
| "config_changes ((b, key) # changes) config =
     config_changes changes
       (config_dconfig_changed_handler key
          (config\<lparr>dconfig := (dconfig config)\<lparr>bus := b\<rparr>\<rparr>))"

definition config_set_change_handler :: "bool \<Rightarrow> Config \<Rightarrow> Config" where
  "config_set_change_handler handler config = config\<lparr>change_handler := handler\<rparr>"

definition config_get_boolean :: "Config \<Rightarrow> string \<Rightarrow> bool" where
  "config_get_boolean config key =
     (if \<not> is_valid (dconfig config) then False
      else if key = ''log_events'' then log_events config
      else if key = ''print_debug_log'' then print_debug_log config
      else if key = ''disable_event_merge'' then disable_event_merge config
      else False)"

definition config_get_uint :: "Config \<Rightarrow> string \<Rightarrow> 32 word" where
  "config_get_uint config key =
     (if \<not> is_valid (dconfig config) then 0
      else if key = ''log_events_type'' then log_events_type config
      else if key = ''log_file_count'' then log_file_count config
      else if key = ''log_file_size'' then log_file_size config
      else 0)"


section \<open>The event listener (event_listener.c)\<close>

text \<open>
  A netlink frame as \<^verbatim>\<open>event_handler\<close> sees it: whether \<^verbatim>\<open>genlmsg_parse\<close> succeeded, the
  command of the generic netlink header, and the attribute table, where a missing
  attribute (\<^verbatim>\<open>attrs[...] == NULL\<close>) is \<open>None\<close>. The header vfs_genl.h with the numbers
  of the commands is not among the sources; the commands are told apart by name.
\<close>

datatype genl_cmd =
    VFSMONITOR_C_NOTIFY
  | VFSMONITOR_C_NOTIFY_PROCESS_INFO
  | VFSMONITOR_C_OTHER nat

record nl_msg =
  parse_ok :: bool
  cmd :: genl_cmd
  VFSMONITOR_A_ACT :: "8 word option"
  VFSMONITOR_A_COOKIE :: "32 word option"
  VFSMONITOR_A_MAJOR :: "16 word option"
  VFSMONITOR_A_MINOR :: "8 word option"
  VFSMONITOR_A_PATH :: "string option"
  VFSMONITOR_A_UID :: "32 word option"
  VFSMONITOR_A_TGID :: "32 word option"

datatype nl_cb_action = NL_OK | NL_SKIP

text \<open>
  The struct \<^verbatim>\<open>EventListener\<close> without the socket and the channel. \<open>handler\<close> tells
  whether a callback is set, and \<open>handled\<close> lists the events it was called with, oldest
  first. \<open>event\<close> is the slot of the event being built; \<open>None\<close> is \<^verbatim>\<open>NULL\<close>.
\<close>

record EventListener =
  event_mask :: "32 word"
  handler :: bool
  event :: "FileEvent option"
  handled :: "FileEvent list"

text \<open>\<^verbatim>\<open>g_slice_new0\<close> gives zeroed memory and aborts the process rather than return \<^verbatim>\<open>NULL\<close>.\<close>

definition file_event_new :: FileEvent where
  "file_event_new =
     \<lparr>action = ACT_INVALID, cookie = 0, major = 0, minor = 0, event_path = [],
      uid = 0, pid = 0, process_path = []\<rparr>"

definition safe_string_copy :: "string \<Rightarrow> nat \<Rightarrow> string" where
  "safe_string_copy src dest_size = take (min (length src) (dest_size - 1)) src"

text \<open>The slot after \<^verbatim>\<open>event_handler\<close> has made sure that there is one.\<close>

definition current_event :: "EventListener \<Rightarrow> FileEvent" where
  "current_event listener =
     (case event listener of None \<Rightarrow> file_event_new | Some e \<Rightarrow> e)"

text \<open>
  \<^verbatim>\<open>event_handler\<close>. The mask test \<^verbatim>\<open>(1 << act) & listener->event_mask\<close> shifts an
  \<^verbatim>\<open>int\<close>: for \<open>act \<ge> 31\<close> the C standard leaves the shift undefined, and the model
  gives \<open>None\<close> there.
\<close>

definition event_handler ::
  "EventListener \<Rightarrow> nl_msg \<Rightarrow> (nl_cb_action \<times> EventListener) option"
where
  "event_handler listener msg =
     (if \<not> parse_ok msg then Some (NL_SKIP, listener)
      else
        let cur = current_event listener;
            listener1 = listener\<lparr>event := Some cur\<rparr>
        in case cmd msg of
             VFSMONITOR_C_NOTIFY \<Rightarrow>
               (case VFSMONITOR_A_ACT msg of
                  None \<Rightarrow> Some (NL_SKIP, listener1)
                | Some act \<Rightarrow>
                    if 31 \<le> unat act then None
                    else if act_bit act AND event_mask listener = 0
                      then Some (NL_OK, listener1)
                    else
                      (let cur1 = cur\<lparr>action := act\<rparr> in
                       case (VFSMONITOR_A_COOKIE msg, VFSMONITOR_A_MAJOR msg,
                             VFSMONITOR_A_MINOR msg, VFSMONITOR_A_PATH msg) of
                         (Some c, Some ma, Some mi, Some path) \<Rightarrow>
                           Some (NL_OK,
                                 listener\<lparr>event := Some
                                   (cur1\<lparr>cookie := c, major := ma, minor := mi,
                                         event_path := safe_string_copy path MAX_PATH_LEN\<rparr>)\<rparr>)
                       | _ \<Rightarrow> Some (NL_SKIP, listener\<lparr>event := Some cur1\<rparr>)))
           | VFSMONITOR_C_NOTIFY_PROCESS_INFO \<Rightarrow>
               if action cur = ACT_INVALID then Some (NL_OK, listener1)
               else
                 (case (VFSMONITOR_A_UID msg, VFSMONITOR_A_TGID msg,
                        VFSMONITOR_A_PATH msg) of
                    (Some u, Some tgid, Some path) \<Rightarrow>
                      (let complete =
                             cur\<lparr>uid := u, pid := tgid,
                                 process_path := safe_string_copy path MAX_PATH_LEN\<rparr>;
                           listener2 =
                             (if handler listener
                              then listener\<lparr>handled := handled listener @ [complete]\<rparr>
                              else listener)
                       in Some (NL_OK, listener2\<lparr>event := None\<rparr>))
                  | _ \<Rightarrow> Some (NL_SKIP, listener1))
           | VFSMONITOR_C_OTHER n \<Rightarrow> Some (NL_SKIP, listener1))"

text \<open>
  \<^verbatim>\<open>event_listener_new\<close>, when the socket could be set up: no event is monitored and
  no event is being built.
\<close>

definition event_listener_new :: EventListener where
  "event_listener_new = \<lparr>event_mask = 0, handler = True, event = None, handled = []\<rparr>"

text \<open>
  \<^verbatim>\<open>event_listener_set_event_mask\<close>: \<open>written\<close> tells whether the mask could be written
  to the control file of the kernel module; only then the listener takes the mask.
\<close>

definition event_listener_set_event_mask ::
  "bool \<Rightarrow> EventListener \<Rightarrow> 32 word \<Rightarrow> bool \<times> EventListener"
where
  "event_listener_set_event_mask written listener m =
     (if \<not> written then (False, listener) else (True, listener\<lparr>event_mask := m\<rparr>))"

text \<open>An event is being built: the slot is there and holds an action.\<close>

definition partial_in_flight :: "EventListener \<Rightarrow> bool" where
  "partial_in_flight listener =
     (case event listener of None \<Rightarrow> False | Some e \<Rightarrow> action e \<noteq> ACT_INVALID)"

subsection \<open>Sample frames\<close>

definition notify_msg :: "8 word \<Rightarrow> 32 word \<Rightarrow> string \<Rightarrow> nl_msg" where
  "notify_msg act c path =
     \<lparr>parse_ok = True, cmd = VFSMONITOR_C_NOTIFY, VFSMONITOR_A_ACT = Some act,
      VFSMONITOR_A_COOKIE = Some c, VFSMONITOR_A_MAJOR = Some 8, VFSMONITOR_A_MINOR = Some 1,
      VFSMONITOR_A_PATH = Some path, VFSMONITOR_A_UID = None, VFSMONITOR_A_TGID = None\<rparr>"

definition process_info_msg :: "32 word \<Rightarrow> 32 word \<Rightarrow> string \<Rightarrow> nl_msg" where
  "process_info_msg u tgid path =
     \<lparr>parse_ok = True, cmd = VFSMONITOR_C_NOTIFY_PROCESS_INFO, VFSMONITOR_A_ACT = None,
      VFSMONITOR_A_COOKIE = None, VFSMONITOR_A_MAJOR = None, VFSMONITOR_A_MINOR = None,
      VFSMONITOR_A_PATH = Some path, VFSMONITOR_A_UID = Some u, VFSMONITOR_A_TGID = Some tgid\<rparr>"

text \<open>A listener that holds the first half of the event of scenario S1.\<close>

definition half_built_listener :: "32 word \<Rightarrow> EventListener" where
  "half_built_listener m =
     \<lparr>event_mask = m, handler = True,
      event = Some (file_event_new\<lparr>action := ACT_NEW_FILE, cookie := 0, major := 8,
                                   minor := 1, event_path := ''/tmp/a''\<rparr>),
      handled = []\<rparr>"


section \<open>The rotating log sink (file_log.c)\<close>

subsection \<open>The file system\<close>

text \<open>
  The part of the world the sink works on. \<open>files\<close> maps the paths that exist to the
  bytes of the file, and \<open>gzip\<close> is the compressor. Every call of a system or library
  function that can fail counts in \<open>calls\<close>; the \<open>k\<close>-th call fails when \<open>faults k\<close>
  holds (and whenever it cannot succeed, as the removal of a file that is not there),
  so that \<open>faults\<close> stands for any pattern of failures. A write that fails may have
  written the first \<open>short_write k\<close> bytes. \<open>trace\<close> is the record of the calls and of
  the warnings of the sink, oldest first.
\<close>

datatype fs_entry =
    Call string "string list" bool
  | Warning string
  | Critical string

record fs =
  files :: "string \<rightharpoonup> string"
  gzip :: "string \<Rightarrow> string"
  faults :: "nat \<Rightarrow> bool"
  short_write :: "nat \<Rightarrow> nat"
  calls :: nat
  trace :: "fs_entry list"

text \<open>One fallible call: it succeeds when it can and is not made to fail.\<close>

definition sys_call :: "string \<Rightarrow> string list \<Rightarrow> bool \<Rightarrow> fs \<Rightarrow> bool \<times> fs" where
  "sys_call name args possible w =
     (let ok = (possible \<and> \<not> faults w (calls w))
      in (ok, w\<lparr>calls := Suc (calls w), trace := trace w @ [Call name args ok]\<rparr>))"

definition g_warning :: "string \<Rightarrow> fs \<Rightarrow> fs" where
  "g_warning msg w = w\<lparr>trace := trace w @ [Warning msg]\<rparr>"

definition g_critical :: "string \<Rightarrow> fs \<Rightarrow> fs" where
  "g_critical msg w = w\<lparr>trace := trace w @ [Critical msg]\<rparr>"

text \<open>\<^verbatim>\<open>g_file_test (path, G_FILE_TEST_EXISTS)\<close>.\<close>

definition g_file_test :: "string \<Rightarrow> fs \<Rightarrow> bool" where
  "g_file_test path w = (files w path \<noteq> None)"

text \<open>The result is \<open>True\<close> for the return value 0.\<close>

definition g_unlink :: "string \<Rightarrow> fs \<Rightarrow> bool \<times> fs" where
  "g_unlink path w =
     (case sys_call ''g_unlink'' [path] (files w path \<noteq> None) w of
        (ok, w1) \<Rightarrow> (ok, if ok then w1\<lparr>files := (files w1)(path := None)\<rparr> else w1))"

definition g_rename :: "string \<Rightarrow> string \<Rightarrow> fs \<Rightarrow> bool \<times> fs" where
  "g_rename src dest w =
     (case sys_call ''g_rename'' [src, dest] (files w src \<noteq> None) w of
        (ok, w1) \<Rightarrow>
          (ok, if ok \<and> src \<noteq> dest
               then w1\<lparr>files := (files w1)(dest := files w1 src, src := None)\<rparr>
               else w1))"

text \<open>
  \<^verbatim>\<open>g_file_delete\<close> on a path, and \<^verbatim>\<open>g_output_stream_close\<close> on the stream that was
  opened on a path.
\<close>

definition g_file_delete :: "string \<Rightarrow> fs \<Rightarrow> bool \<times> fs" where
  "g_file_delete path w =
     (case sys_call ''g_file_delete'' [path] (files w path \<noteq> None) w of
        (ok, w1) \<Rightarrow> (ok, if ok then w1\<lparr>files := (files w1)(path := None)\<rparr> else w1))"

definition g_output_stream_close :: "string \<Rightarrow> fs \<Rightarrow> bool \<times> fs" where
  "g_output_stream_close stream w = sys_call ''g_output_stream_close'' [stream] True w"

subsection \<open>The sink\<close>

text \<open>
  The struct \<^verbatim>\<open>FileLogger\<close>; the sizes are \<^verbatim>\<open>gsize\<close>, 64 bits wide. \<open>out_stream\<close> is
  \<open>None\<close> for \<^verbatim>\<open>NULL\<close> and otherwise names the file the stream was opened on.
\<close>

record FileLogger =
  log_file_path :: string
  max_file_size :: "64 word"
  max_file_count :: "64 word"
  out_stream :: "string option"
  current_file_size :: "64 word"

definition open_log_file :: "FileLogger \<Rightarrow> fs \<Rightarrow> bool \<times> FileLogger \<times> fs" where
  "open_log_file logger w =
     (let path = log_file_path logger;
          logger0 = logger\<lparr>current_file_size := 0, out_stream := None\<rparr>
      in case sys_call ''g_file_append_to'' [path] True w of
           (opened, w1) \<Rightarrow>
             if \<not> opened
             then (False, logger0, g_warning (''Failed to open log file: '' @ path) w1)
             else
               (let w2 = (case files w1 path of
                            None \<Rightarrow> w1\<lparr>files := (files w1)(path \<mapsto> [])\<rparr>
                          | Some old \<Rightarrow> w1);
                    logger1 = logger0\<lparr>out_stream := Some path\<rparr>
                in case sys_call ''g_file_query_info'' [path] True w2 of
                     (queried, w3) \<Rightarrow>
                       if \<not> queried
                       then (True, logger1,
                             g_warning (''Failed to get file info: '' @ path) w3)
                       else
                         (True,
                          logger1\<lparr>current_file_size :=
                                    (case files w3 path of
                                       None \<Rightarrow> 0
                                     | Some content \<Rightarrow> of_nat (length content))\<rparr>,
                          w3)))"

text \<open>
  \<^verbatim>\<open>close_log_file\<close>: the stream is closed, if there is one. The code does not look at
  the result of \<^verbatim>\<open>g_output_stream_close\<close>.
\<close>

definition close_log_file :: "FileLogger \<Rightarrow> fs \<Rightarrow> FileLogger \<times> fs" where
  "close_log_file logger w =
     (case out_stream logger of
        None \<Rightarrow> (logger, w)
      | Some stream \<Rightarrow>
          (case g_output_stream_close stream w of
             (closed, w1) \<Rightarrow> (logger\<lparr>out_stream := None\<rparr>, w1)))"

text \<open>
  \<^verbatim>\<open>compress_file\<close>. The compressed data reaches the file through the converting
  stream, which writes the end of the archive when it is closed: the file holds the
  whole archive \<open>gzip w content\<close> once \<^verbatim>\<open>g_output_stream_close\<close> has succeeded, and only
  the first \<open>short_write w k\<close> bytes of it when the \<open>k\<close>-th call, the splice or the
  close, has failed. The code looks neither at the result of the close nor at that of
  \<^verbatim>\<open>g_file_delete\<close>.
\<close>

definition compress_file :: "string \<Rightarrow> fs \<Rightarrow> bool \<times> fs" where
  "compress_file path w =
     (let compressed_path = path @ ''.gz''
      in case sys_call ''g_file_read'' [path] (files w path \<noteq> None) w of
           (readable, w1) \<Rightarrow>
             if \<not> readable
             then (False,
                   g_warning (''Failed to open source file for compression '' @ path) w1)
             else
               (case sys_call ''g_file_replace'' [compressed_path] True w1 of
                  (created, w2) \<Rightarrow>
                    if \<not> created
                    then (False,
                          g_warning (''Failed to create compressed file '' @ compressed_path) w2)
                    else
                      (let content = (case files w2 path of None \<Rightarrow> [] | Some c \<Rightarrow> c);
                           archive = gzip w2 content
                       in case sys_call ''g_output_stream_splice'' [compressed_path, path]
                                 True w2 of
                            (spliced, w3) \<Rightarrow>
                              if \<not> spliced
                              then
                                (let w4 = g_warning (''Failed to compress file '' @ path)
                                            (w3\<lparr>files :=
                                                  (files w3)(compressed_path \<mapsto>
                                                     take (short_write w2 (calls w2)) archive)\<rparr>)
                                 in case g_output_stream_close compressed_path w4 of
                                      (closed, w5) \<Rightarrow>
                                        (case g_file_delete compressed_path w5 of
                                           (deleted, w6) \<Rightarrow> (False, w6)))
                              else
                                (case g_output_stream_close compressed_path w3 of
                                   (closed, w4) \<Rightarrow>
                                     (let w5 = w4\<lparr>files :=
                                                     (files w4)(compressed_path \<mapsto>
                                                        (if closed then archive
                                                         else take (short_write w3 (calls w3))
                                                                archive))\<rparr>
                                      in case g_unlink path w5 of
                                           (removed, w6) \<Rightarrow>
                                             if \<not> removed
                                             then (True,
                                                   g_warning
                                                     (''Failed to delete original log file '' @
                                                      path) w6)
                                             else (True, w6))))))"

text \<open>The name of the archive of index \<open>i\<close>: \<^verbatim>\<open>"%s.%lu.gz"\<close> and \<^verbatim>\<open>"%s.%d.gz"\<close>.\<close>

definition archive_path :: "string \<Rightarrow> nat \<Rightarrow> string" where
  "archive_path base i = base @ ''.'' @ dec i @ ''.gz''"

text \<open>
  The first loop of \<^verbatim>\<open>rotate_logs\<close>, from the index \<open>i\<close> on: the files left behind
  above the bound are removed, up to the first index that has no file.
\<close>

function delete_left_behind :: "string \<Rightarrow> nat \<Rightarrow> fs \<Rightarrow> fs" where
  "delete_left_behind base i w =
     (if i < 100 then
        (let path = archive_path base i
         in if g_file_test path w then
              (case g_unlink path w of
                 (removed, w1) \<Rightarrow>
                   delete_left_behind base (Suc i)
                     (if \<not> removed
                      then g_warning (''Failed to delete old log file: '' @ path) w1
                      else w1))
            else w)
      else w)"
  by pat_completeness auto
termination
  by (relation "measure (\<lambda>(base, i, w). 100 - i)") auto

declare delete_left_behind.simps [simp del]

text \<open>The block of \<^verbatim>\<open>rotate_logs\<close> that deletes the oldest archive.\<close>

definition delete_oldest :: "FileLogger \<Rightarrow> fs \<Rightarrow> bool \<times> fs" where
  "delete_oldest logger w =
     (let oldest_path = archive_path (log_file_path logger) (unat (max_file_count logger - 1))
      in if g_file_test oldest_path w then
           (case g_unlink oldest_path w of
              (removed, w1) \<Rightarrow>
                if \<not> removed
                then (False,
                      g_warning
                        (''Failed to delete oldest compressed log file: '' @ oldest_path) w1)
                else (True, w1))
         else (True, w))"

text \<open>
  The second loop of \<^verbatim>\<open>rotate_logs\<close>, for the indices \<open>n - 1\<close> down to 0: an archive
  that exists moves up by one index.
\<close>

fun rotate_intermediate :: "string \<Rightarrow> nat \<Rightarrow> fs \<Rightarrow> bool \<times> fs" where
  "rotate_intermediate base 0 w = (True, w)"
| "rotate_intermediate base (Suc i) w =
     (let src_path = archive_path base i
      in if g_file_test src_path w then
           (let dest_path = archive_path base (i + 1)
            in case g_rename src_path dest_path w of
                 (renamed, w1) \<Rightarrow>
                   if \<not> renamed
                   then (False,
                         g_warning
                           (''Failed to rename log file: '' @ src_path @ '' to '' @ dest_path) w1)
                   else rotate_intermediate base i w1)
         else rotate_intermediate base i w)"

text \<open>
  The loop starts at \<^verbatim>\<open>gint i = logger->max_file_count - 2\<close>: the low 32 bits of the
  difference, read as a signed number; it does not run when that is negative.
\<close>

definition rotate_compressed :: "FileLogger \<Rightarrow> fs \<Rightarrow> bool \<times> fs" where
  "rotate_compressed logger w =
     (let i = sint (ucast (max_file_count logger - 2) :: 32 word)
      in if 0 \<le> i then rotate_intermediate (log_file_path logger) (Suc (nat i)) w
         else (True, w))"

text \<open>The block of \<^verbatim>\<open>rotate_logs\<close> that archives the current log file.\<close>

definition rotate_current :: "FileLogger \<Rightarrow> fs \<Rightarrow> bool \<times> fs" where
  "rotate_current logger w =
     (let path = log_file_path logger
      in if g_file_test path w then
           (let dest_path = path @ ''.'' @ printf_d 0
            in case g_rename path dest_path w of
                 (renamed, w1) \<Rightarrow>
                   if \<not> renamed
                   then (False,
                         g_warning
                           (''Failed to rename current log file: '' @ path @ '' to '' @ dest_path)
                           w1)
                   else
                     (case compress_file dest_path w1 of
                        (compressed, w2) \<Rightarrow>
                          if \<not> compressed
                          then (False,
                                g_warning (''Failed to compress log file: '' @ dest_path) w2)
                          else (True, w2)))
         else (True, w))"

definition rotate_logs :: "FileLogger \<Rightarrow> fs \<Rightarrow> bool \<times> FileLogger \<times> fs" where
  "rotate_logs logger w =
     (case close_log_file logger w of
        (logger1, w0) \<Rightarrow>
          (let w1 = delete_left_behind (log_file_path logger1) (unat (max_file_count logger1)) w0
           in case delete_oldest logger1 w1 of
                (deleted, w2) \<Rightarrow>
                  if \<not> deleted then (False, logger1, w2)
                  else
                    (case rotate_compressed logger1 w2 of
                       (rotated, w3) \<Rightarrow>
                         if \<not> rotated then (False, logger1, w3)
                         else
                           (case rotate_current logger1 w3 of
                              (archived, w4) \<Rightarrow>
                                if \<not> archived then (False, logger1, w4)
                                else
                                  (case open_log_file logger1 w4 of
                                     (opened, logger2, w5) \<Rightarrow>
                                       if \<not> opened
                                       then (False, logger2,
                                             g_critical
                                               (''Failed to open new log file: '' @
                                                log_file_path logger1) w5)
                                       else (True, logger2, w5))))))"



text \<open>
  \<^verbatim>\<open>file_logger_new\<close>: both bounds must be positive, the directory of the log file must
  be there or be made (\<open>dir_ok\<close>), and the log file must open; \<open>None\<close> is \<^verbatim>\<open>NULL\<close>.
\<close>

definition file_logger_new ::
  "bool \<Rightarrow> string \<Rightarrow> 64 word \<Rightarrow> 64 word \<Rightarrow> fs \<Rightarrow> FileLogger option \<times> fs"
where
  "file_logger_new dir_ok path max_size max_count w =
     (if \<not> (0 < max_count) then (None, w)
      else if \<not> (0 < max_size) then (None, w)
      else if \<not> dir_ok then (None, g_warning ''Failed to create log directory'' w)
      else
        (case open_log_file
                \<lparr>log_file_path = path, max_file_size = max_size, max_file_count = max_count,
                 out_stream = None, current_file_size = 0\<rparr> w of
           (opened, logger, w1) \<Rightarrow> if \<not> opened then (None, w1) else (Some logger, w1)))"

text \<open>The oldest archive that is kept: that of the index \<^verbatim>\<open>max_file_count - 1\<close>.\<close>

definition oldest_archive :: "FileLogger \<Rightarrow> string" where
  "oldest_archive logger =
     archive_path (log_file_path logger) (unat (max_file_count logger - 1))"

text \<open>The value of a printed decimal number, to tell the names of the archives apart.\<close>

definition digit_value :: "char \<Rightarrow> nat" where
  "digit_value c = length (takeWhile (\<lambda>d. d \<noteq> c) ''0123456789'')"

definition decimal_value :: "string \<Rightarrow> nat" where
  "decimal_value s = foldl (\<lambda>a c. 10 * a + digit_value c) 0 s"

subsection \<open>A sample directory\<close>

text \<open>
  A log directory for a sink that keeps three archives: the log file, the archive of
  index 3 left behind by an earlier, larger bound, and, after a gap, that of index 5.
\<close>

definition sample_fs :: fs where
  "sample_fs =
     \<lparr>files = [''/log/e.csv'' \<mapsto> ''line'', ''/log/e.csv.3.gz'' \<mapsto> ''old3'',
               ''/log/e.csv.5.gz'' \<mapsto> ''old5''],
      gzip = (\<lambda>s. ''gz:'' @ s), faults = (\<lambda>k. False), short_write = (\<lambda>k. 0),
      calls = 0, trace = []\<rparr>"



definition sample_sink :: FileLogger where
  "sample_sink =
     \<lparr>log_file_path = ''/log/e.csv'', max_file_size = 2, max_file_count = 3,
      out_stream = Some ''/log/e.csv'', current_file_size = 4\<rparr>"

subsection \<open>Failures in the record of calls\<close>

text \<open>
  The failures that make \<^verbatim>\<open>rotate_logs\<close> give up: the failed removal of the oldest
  archive, a failed rename, and the failure to open the source of the compression, to
  create the compressed file, to splice the data into it, or to reopen the log file.
  (The other calls may fail without that: the removal of a file left behind, the
  removal of the uncompressed copy, the close of the compressed stream, the deletion of
  a compressed file that was begun, and the query of the size.)
\<close>

definition listed_failure :: "string \<Rightarrow> fs_entry \<Rightarrow> bool" where
  "listed_failure oldest_path e =
     (case e of
        Call name args ok \<Rightarrow>
          \<not> ok \<and>
          (name = ''g_rename'' \<or> name = ''g_file_read'' \<or> name = ''g_file_replace'' \<or>
           name = ''g_output_stream_splice'' \<or> name = ''g_file_append_to'' \<or>
           (name = ''g_unlink'' \<and> args = [oldest_path]))
      | Warning msg \<Rightarrow> False
      | Critical msg \<Rightarrow> False)"

text \<open>
  What may follow a failure in the record: further warnings, and the two calls by which
  \<^verbatim>\<open>compress_file\<close> gives up a compressed file that it has begun.
\<close>

definition winds_up :: "fs_entry \<Rightarrow> bool" where
  "winds_up e =
     (case e of
        Call name args ok \<Rightarrow> name = ''g_output_stream_close'' \<or> name = ''g_file_delete''
      | Warning msg \<Rightarrow> True
      | Critical msg \<Rightarrow> True)"

text \<open>
  A stretch of the record that ends in an abort: it holds a listed failure, none before
  it, the warning about it right after it, and behind that nothing but what winds up:
  no step of the rotation follows the failure.
\<close>

definition aborted :: "string \<Rightarrow> fs_entry list \<Rightarrow> bool" where
  "aborted oldest_path seg =
     (\<exists>before failure msg rest.
        seg = before @ failure # Warning msg # rest \<and>
        \<not> list_ex (listed_failure oldest_path) before \<and>
        listed_failure oldest_path failure \<and>
        list_all winds_up rest)"

text \<open>
  The stretch \<open>seg\<close> was added to the record between \<open>w\<close> and \<open>w'\<close>, and it is free of
  listed failures when \<open>ok\<close> holds and ends in an abort otherwise.
\<close>

definition runs :: "string \<Rightarrow> fs \<Rightarrow> bool \<Rightarrow> fs \<Rightarrow> bool" where
  "runs oldest_path w ok w' =
     (\<exists>seg. trace w' = trace w @ seg \<and>
        (if ok then \<not> list_ex (listed_failure oldest_path) seg
         else aborted oldest_path seg))"


section \<open>The mount tracker (the unnamed-device updater)\<close>

text \<open>
  A row of the mount table as the tracker reads it: major and minor number of the
  device and the file system type, which \<^verbatim>\<open>mnt_fs_get_fstype\<close> may not know (\<open>None\<close>).
\<close>

record mnt_fs =
  devno_major :: nat
  devno_minor :: nat
  fstype :: "string option"

definition MAX_MINOR :: nat where
  "MAX_MINOR = 255"

text \<open>
  The loop of \<^verbatim>\<open>get_unnamed_device_by_fstype\<close> over the rows, with the list of devices
  and the set of minors found so far. The inner loop over the types is the test whether
  the type of the row is one of them.
\<close>

fun unnamed_device_loop ::
  "string list \<Rightarrow> mnt_fs list \<Rightarrow> string list \<Rightarrow> nat set \<Rightarrow> string list"
where
  "unnamed_device_loop fstypes [] devices minor_set = devices"
| "unnamed_device_loop fstypes (row # table) devices minor_set =
     (if devno_major row \<noteq> 0 \<or> devno_minor row \<in> minor_set
        then unnamed_device_loop fstypes table devices minor_set
      else if devno_minor row > MAX_MINOR
        then unnamed_device_loop fstypes table devices minor_set
      else if list_ex (\<lambda>t. fstype row = Some t) fstypes
        then unnamed_device_loop fstypes table (devices @ [dec (devno_minor row)])
               (insert (devno_minor row) minor_set)
      else unnamed_device_loop fstypes table devices minor_set)"

text \<open>The mount table is \<open>None\<close> when \<^verbatim>\<open>mnt_table_parse_mtab\<close> fails.\<close>

definition get_unnamed_device_by_fstype :: "string list \<Rightarrow> mnt_fs list option \<Rightarrow> string list" where
  "get_unnamed_device_by_fstype fstypes table =
     (case table of None \<Rightarrow> [] | Some rows \<Rightarrow> unnamed_device_loop fstypes rows [] {})"

text \<open>
  The control file of the kernel module: what reading it gives (\<open>None\<close> when the read
  fails), which calls of \<^verbatim>\<open>fopen\<close> for writing fail, and the record of the calls of
  \<^verbatim>\<open>write_vfs_unnamed_device\<close>, each with its string and whether the file could be opened
  and the string was written.
\<close>

record control_file =
  readback :: "string option"
  fopen_fails :: "nat \<Rightarrow> bool"
  fopen_calls :: nat
  writes :: "(string \<times> bool) list"

definition write_vfs_unnamed_device :: "string \<Rightarrow> control_file \<Rightarrow> control_file" where
  "write_vfs_unnamed_device str c =
     c\<lparr>fopen_calls := Suc (fopen_calls c),
       writes := writes c @ [(str, \<not> fopen_fails c (fopen_calls c))]\<rparr>"

text \<open>\<^verbatim>\<open>g_strsplit (content, ",", 0)\<close>: the empty string has no pieces.\<close>

fun split_commas :: "string \<Rightarrow> string \<Rightarrow> string list" where
  "split_commas piece [] = [piece]"
| "split_commas piece (c # cs) =
     (if c = COMMA then piece # split_commas [] cs else split_commas (piece @ [c]) cs)"

definition g_strsplit_commas :: "string \<Rightarrow> string list" where
  "g_strsplit_commas s = (if s = [] then [] else split_commas [] s)"

text \<open>
  \<^verbatim>\<open>read_vfs_unnamed_device\<close>. For an empty file the code reads \<^verbatim>\<open>content[len - 1]\<close> in
  front of the buffer, which C leaves undefined.
\<close>

datatype read_result = ReadFailed | ReadUndefined | ReadOk "string list"

definition read_vfs_unnamed_device :: "string option \<Rightarrow> read_result" where
  "read_vfs_unnamed_device file_content =
     (case file_content of
        None \<Rightarrow> ReadFailed
      | Some content \<Rightarrow>
          if content = [] then ReadUndefined
          else ReadOk (g_strsplit_commas
                         (if last content = LF then butlast content else content)))"

text \<open>
  \<^verbatim>\<open>diff_sorted_lists\<close>: the three loops, with the lists \<open>added\<close> and \<open>removed\<close> that grow
  at the front. \<^verbatim>\<open>g_strcmp0\<close> compares the bytes as unsigned numbers, as the order on
  strings does.
\<close>

fun diff_loop ::
  "string list \<Rightarrow> string list \<Rightarrow> string list \<Rightarrow> string list \<Rightarrow> string list \<times> string list"
where
  "diff_loop [] [] added removed = (added, removed)"
| "diff_loop (x # list1) [] added removed = diff_loop list1 [] added (x # removed)"
| "diff_loop [] (y # list2) added removed = diff_loop [] list2 (y # added) removed"
| "diff_loop (x # list1) (y # list2) added removed =
     (if x < y then diff_loop list1 (y # list2) added (x # removed)
      else if x > y then diff_loop (x # list1) list2 (y # added) removed
      else diff_loop list1 list2 added removed)"

definition diff_sorted_lists :: "string list \<Rightarrow> string list \<Rightarrow> string list \<times> string list" where
  "diff_sorted_lists list1 list2 = diff_loop list1 list2 [] []"

text \<open>\<^verbatim>\<open>snprintf (buf, sizeof (buf), "r%s", ...)\<close> with a buffer of 32 bytes.\<close>

definition snprintf_op :: "char \<Rightarrow> string \<Rightarrow> string" where
  "snprintf_op op device = take 31 (op # device)"

fun write_ops :: "char \<Rightarrow> string list \<Rightarrow> control_file \<Rightarrow> control_file" where
  "write_ops op [] c = c"
| "write_ops op (device # devices) c =
     write_ops op devices (write_vfs_unnamed_device (snprintf_op op device) c)"

text \<open>\<open>None\<close> is the undefined read of an empty control file.\<close>

definition update_vfs_unnamed_device :: "string list \<Rightarrow> control_file \<Rightarrow> control_file option" where
  "update_vfs_unnamed_device news c =
     (case read_vfs_unnamed_device (readback c) of
        ReadFailed \<Rightarrow> Some c
      | ReadUndefined \<Rightarrow> None
      | ReadOk olds \<Rightarrow>
          (case diff_sorted_lists (sort olds) (sort news) of
             (added, removed) \<Rightarrow>
               Some (write_ops CHR ''a'' added (write_ops CHR ''r'' removed c))))"

definition mounts_changed ::
  "string list \<Rightarrow> mnt_fs list option \<Rightarrow> control_file \<Rightarrow> control_file option"
where
  "mounts_changed fstypes table c =
     update_vfs_unnamed_device (get_unnamed_device_by_fstype fstypes table) c"

definition tracked_fstypes :: "string list" where
  "tracked_fstypes = [''overlay'', ''btrfs'', ''fuse.dlnfs'', ''ulnfs'']"

subsection \<open>A sample mount table\<close>

definition sample_mounts :: "mnt_fs list" where
  "sample_mounts =
     [\<lparr>devno_major = 8, devno_minor = 1, fstype = Some ''ext4''\<rparr>,
      \<lparr>devno_major = 0, devno_minor = 45, fstype = Some ''overlay''\<rparr>,
      \<lparr>devno_major = 0, devno_minor = 21, fstype = Some ''proc''\<rparr>,
      \<lparr>devno_major = 0, devno_minor = 45, fstype = Some ''overlay''\<rparr>,
      \<lparr>devno_major = 0, devno_minor = 7, fstype = Some ''btrfs''\<rparr>,
      \<lparr>devno_major = 0, devno_minor = 300, fstype = Some ''ulnfs''\<rparr>]"

definition sample_control_file :: control_file where
  "sample_control_file =
     \<lparr>readback = Some (''45,30,31'' @ [LF]), fopen_fails = (\<lambda>k. False), fopen_calls = 0,
      writes = []\<rparr>"


section \<open>Properties of the event worker\<close>

text \<open>Evaluation of the printf conversions on numerals, and the sample inputs.\<close>

lemma dec_numeral:
  "dec (numeral k) =
     (if (numeral k :: nat) < 10 then [''0123456789'' ! numeral k]
      else dec (numeral k div 10) @ [''0123456789'' ! (numeral k mod 10)])"
  by (rule dec.simps)

lemma dec_0: "dec 0 = ''0''" by (simp add: dec.simps)
lemma dec_1: "dec (Suc 0) = ''1''" by (simp add: dec.simps)

lemmas dec_eval = dec_numeral dec_0 dec_1

lemmas sample_defs = sample_clock_def running_logger_def touch_event_def mv_from_event_def
  mv_to_event_def event_logger_new_def

lemmas format_defs = format_single_event_csv_def format_rename_event_csv_def
  get_timestamp_string_def printf_0d_def printf_d_def zero_pad_def c_div_def
  TIMESTAMP_BUFFER_SIZE_def escaped_or_original_def escape_csv_field_def csv_special_def
  event_action_to_string_def dec_eval

lemma worker_loop_Cons:
  "worker_loop clk (ev # queue) logger =
     (if \<not> is_running logger then (Returned, ev # queue, logger)
      else if action ev = ACT_TERMINATE then (Returned, queue, logger)
      else if \<not> fst (validate_file_event ev)
        then worker_loop clk queue
               (logger\<lparr>warnings := warnings logger @ snd (validate_file_event ev) @
                                     [''Discarding invalid event'']\<rparr>)
      else if action ev = ACT_RENAME_FROM_FILE \<or> action ev = ACT_RENAME_TO_FILE \<or>
              action ev = ACT_RENAME_FROM_FOLDER \<or> action ev = ACT_RENAME_TO_FOLDER
        then worker_loop clk queue (handle_rename_event clk logger ev)
      else worker_loop clk queue
             (log_handler (format_single_event_csv (clk (clock_calls logger)) ev)
                (logger\<lparr>clock_calls := Suc (clock_calls logger)\<rparr>)))"
  by (simp add: case_prod_beta)

declare worker_loop.simps(2) [simp del]
declare worker_loop_Cons [simp]

lemma validate_file_event_iff:
  "fst (validate_file_event ev) \<longleftrightarrow>
     process_path ev \<noteq> [] \<and> event_path ev \<noteq> [] \<and> 0 < sint (pid ev)"
  by (auto simp add: validate_file_event_def)

lemma handle_rename_event_running [simp]:
  "is_running (handle_rename_event clk logger ev) = is_running logger"
  by (simp add: handle_rename_event_def log_handler_def Let_def split: option.split)

lemma worker_loop_append:
  "is_running logger \<Longrightarrow> list_all (\<lambda>e. action e \<noteq> ACT_TERMINATE) mid \<Longrightarrow>
   worker_loop clk (mid @ rest) logger = worker_loop clk rest (after_events clk mid logger)
   \<and> is_running (after_events clk mid logger)"
proof (induction mid arbitrary: logger)
  case Nil
  then show ?case by (simp add: after_events_def)
next
  case (Cons e mid)
  then show ?case
    by (simp add: after_events_def log_handler_def)
qed

lemma handle_rename_event_pend:
  "rename_events logger c = None \<Longrightarrow> cookie e \<noteq> c \<Longrightarrow>
   handle_rename_event clk (pend c f logger) e = pend c f (handle_rename_event clk logger e)
   \<and> rename_events (handle_rename_event clk logger e) c = None"
  by (auto simp add: handle_rename_event_def pend_def log_handler_def Let_def fun_upd_twist
      split: option.split)

lemma after_events_pend:
  "rename_events logger c = None \<Longrightarrow> list_all (leaves_cookie c) mid \<Longrightarrow>
   after_events clk mid (pend c f logger) = pend c f (after_events clk mid logger)
   \<and> rename_events (after_events clk mid logger) c = None"
proof (induction mid arbitrary: logger)
  case Nil
  then show ?case by (simp add: after_events_def pend_def)
next
  case (Cons e mid)
  have e: "leaves_cookie c e" and mid: "list_all (leaves_cookie c) mid"
    using Cons.prems(2) by simp_all
  show ?case
  proof (cases "is_running logger")
    case False
    then show ?thesis using Cons.prems(1) by (simp add: after_events_def pend_def)
  next
    case True
    note run = this
    show ?thesis
    proof (cases "fst (validate_file_event e)")
      case False
      let ?l = "logger\<lparr>warnings := warnings logger @ snd (validate_file_event e) @
                                         [''Discarding invalid event'']\<rparr>"
      have n: "rename_events ?l c = None" using Cons.prems(1) by simp
      have t: "action e \<noteq> ACT_TERMINATE" using e by (simp add: leaves_cookie_def)
      have r: "is_running (pend c f logger)" using run by (simp add: pend_def)
      have p: "(pend c f logger)
                 \<lparr>warnings := warnings (pend c f logger) @ snd (validate_file_event e) @
                                [''Discarding invalid event'']\<rparr> = pend c f ?l"
        by (simp add: pend_def)
      show ?thesis
        using Cons.IH [OF n mid] False run t r p
        by (simp add: after_events_def)
    next
      case True
      note valid = this
      show ?thesis
      proof (cases "is_rename (action e)")
        case True
        then have ne: "cookie e \<noteq> c" using e valid by (simp add: leaves_cookie_def)
        have h: "handle_rename_event clk (pend c f logger) e = pend c f (handle_rename_event clk logger e)"
          and n: "rename_events (handle_rename_event clk logger e) c = None"
          using handle_rename_event_pend [OF Cons.prems(1) ne] by simp_all
        have t: "action e \<noteq> ACT_TERMINATE" using e by (simp add: leaves_cookie_def)
        have r: "is_running (pend c f logger)" using run by (simp add: pend_def)
        show ?thesis
          using Cons.IH [OF n mid] True valid run t r h
          by (simp add: after_events_def is_rename_def)
      next
        case False
        have t: "action e \<noteq> ACT_TERMINATE" using e by (simp add: leaves_cookie_def)
        let ?l = "log_handler (format_single_event_csv (clk (clock_calls logger)) e)
                (logger\<lparr>clock_calls := Suc (clock_calls logger)\<rparr>)"
        have n: "rename_events ?l c = None" using Cons.prems(1) by (simp add: log_handler_def)
        have p: "log_handler (format_single_event_csv (clk (clock_calls (pend c f logger))) e)
                ((pend c f logger)\<lparr>clock_calls := Suc (clock_calls (pend c f logger))\<rparr>) = pend c f ?l"
          by (simp add: log_handler_def pend_def)
        have r: "is_running (pend c f logger)" using run by (simp add: pend_def)
        show ?thesis
          using Cons.IH [OF n mid] False valid run t r p
          by (simp add: after_events_def is_rename_def)
      qed
    qed
  qed
qed


lemma rename_line_shape:
  "\<exists>prefix. format_rename_event_csv now from_event to_event =
     prefix @ escaped_or_original (event_path from_event) @ '','' @
     escaped_or_original (event_path to_event) @ [LF]"
  unfolding format_rename_event_csv_def
  by (metis append.assoc)

text \<open>
  C1. Rename pairing. Let the worker be running with no rename pending for the cookie
  \<open>c\<close>, let \<open>from_event\<close> be a valid rename-from event and \<open>to_event\<close> a valid
  rename-to event of cookie \<open>c\<close>, and let \<open>mid\<close> be events that neither stop the
  worker nor are rename events of cookie \<open>c\<close>. Then processing \<open>from_event\<close>, \<open>mid\<close>,
  \<open>to_event\<close> is processing \<open>mid\<close> alone followed by exactly one more line, the
  combined line of the pair, which ends with the two (escaped) paths, and nothing is
  pending for \<open>c\<close> afterwards. A rename-to event that finds nothing pending for \<open>c\<close>
  changes nothing and writes nothing. A rename-from event whose partner does not
  arrive writes nothing: after \<open>from_event\<close> and \<open>mid\<close> the lines are those of \<open>mid\<close>
  alone, and the event is still pending.
\<close>

theorem rename_pairing:
  assumes run: "is_running logger"
    and free: "rename_events logger c = None"
    and f: "fst (validate_file_event from_event)" "is_rename_from (action from_event)"
           "cookie from_event = c"
    and t: "fst (validate_file_event to_event)" "is_rename_to (action to_event)"
           "cookie to_event = c"
    and mid: "list_all (leaves_cookie c) mid"
  shows "worker_loop clk (from_event # mid @ to_event # rest) logger =
           worker_loop clk rest
             (log_handler
                (format_rename_event_csv (clk (clock_calls (after_events clk mid logger)))
                   from_event to_event)
                ((after_events clk mid logger)
                   \<lparr>clock_calls := Suc (clock_calls (after_events clk mid logger))\<rparr>))
         \<and> rename_events (after_events clk mid logger) c = None
         \<and> (\<exists>prefix. format_rename_event_csv now from_event to_event =
               prefix @ escaped_or_original (event_path from_event) @ '','' @
               escaped_or_original (event_path to_event) @ [LF])
         \<and> worker_loop clk (to_event # rest) logger = worker_loop clk rest logger
         \<and> after_events clk (from_event # mid) logger =
             (after_events clk mid logger)
               \<lparr>rename_events := (rename_events (after_events clk mid logger))(c \<mapsto> from_event)\<rparr>
         \<and> log_lines (after_events clk (from_event # mid) logger) =
             log_lines (after_events clk mid logger)"
proof -
  let ?L = "after_events clk mid logger"
  have nt: "list_all (\<lambda>e. action e \<noteq> ACT_TERMINATE) mid"
    using mid by (induction mid) (simp_all add: leaves_cookie_def)
  have fa: "action from_event \<noteq> ACT_TERMINATE" "is_rename (action from_event)"
    using f(2) by (auto simp add: is_rename_from_def is_rename_def ACT_defs)
  have ta: "action to_event \<noteq> ACT_TERMINATE" "is_rename (action to_event)"
       "\<not> is_rename_from (action to_event)"
    using t(2) by (auto simp add: is_rename_to_def is_rename_from_def is_rename_def ACT_defs)
  have hf: "handle_rename_event clk logger from_event = pend c from_event logger"
    using free f by (simp add: handle_rename_event_def pend_def)
  have step_f: "worker_loop clk (from_event # q) logger = worker_loop clk q (pend c from_event logger)"
    for q
    using run f(1) fa hf by (simp add: is_rename_def)
  have Lp: "after_events clk mid (pend c from_event logger) = pend c from_event ?L"
    and Ln: "rename_events ?L c = None"
    using after_events_pend [OF free mid] by simp_all
  have runp: "is_running (pend c from_event logger)" using run by (simp add: pend_def)
  have app: "worker_loop clk (mid @ to_event # rest) (pend c from_event logger) =
             worker_loop clk (to_event # rest) (pend c from_event ?L)"
    and runL: "is_running (pend c from_event ?L)"
    using worker_loop_append [OF runp nt, of clk "to_event # rest"] Lp by simp_all
  have ht: "handle_rename_event clk (pend c from_event ?L) to_event =
            log_handler (format_rename_event_csv (clk (clock_calls ?L)) from_event to_event)
              (?L\<lparr>clock_calls := Suc (clock_calls ?L)\<rparr>)"
    using t f(2) Ln
    by (simp add: handle_rename_event_def pend_def log_handler_def Let_def fun_upd_idem)
  have step_t: "worker_loop clk (to_event # rest) (pend c from_event ?L) =
            worker_loop clk rest (handle_rename_event clk (pend c from_event ?L) to_event)"
    using runL t(1) ta by (simp add: is_rename_def)
  have a: "worker_loop clk (from_event # mid @ to_event # rest) logger =
           worker_loop clk rest
             (log_handler (format_rename_event_csv (clk (clock_calls ?L)) from_event to_event)
                (?L\<lparr>clock_calls := Suc (clock_calls ?L)\<rparr>))"
    using step_f [of "mid @ to_event # rest"] app step_t ht by simp
  have ho: "handle_rename_event clk logger to_event = logger"
    using free t ta(3) by (simp add: handle_rename_event_def)
  have b: "worker_loop clk (to_event # rest) logger = worker_loop clk rest logger"
    using run t(1) ta ho by (simp add: is_rename_def)
  have c1: "after_events clk (from_event # mid) logger = pend c from_event ?L"
    using step_f [of mid] Lp by (simp add: after_events_def)
  have c2: "log_lines (after_events clk (from_event # mid) logger) = log_lines ?L"
    using c1 by (simp add: pend_def)
  show ?thesis
    using a b c1 c2 Ln rename_line_shape [of now from_event to_event]
    by (simp add: pend_def)
qed

theorem rename_pairing_witness:
  "is_running running_logger \<and> rename_events running_logger 7 = None \<and>
   fst (validate_file_event mv_from_event) \<and> is_rename_from (action mv_from_event) \<and>
   cookie mv_from_event = 7 \<and>
   fst (validate_file_event mv_to_event) \<and> is_rename_to (action mv_to_event) \<and>
   cookie mv_to_event = 7 \<and> list_all (leaves_cookie 7) [touch_event] \<and>
   worker_loop sample_clock (mv_from_event # [touch_event] @ mv_to_event # []) running_logger =
     (Blocked, [],
      running_logger
        \<lparr>log_lines :=
           [''2025-11-02 09:30:00.123,/usr/bin/touch,1000,42,file-created,/tmp/a'' @ [LF],
            ''2025-11-02 09:30:01.123,/bin/mv,1000,43,file-renamed,/x/old,/x/new'' @ [LF]],
         clock_calls := 2\<rparr>)"
proof -
  have h1: "is_running running_logger" by (simp add: sample_defs)
  have h2: "rename_events running_logger 7 = None" by (simp add: sample_defs)
  have h3: "fst (validate_file_event mv_from_event)" by (simp add: sample_defs validate_file_event_def)
  have h4: "is_rename_from (action mv_from_event)" by (simp add: sample_defs is_rename_from_def)
  have h5: "cookie mv_from_event = 7" by (simp add: sample_defs)
  have h6: "fst (validate_file_event mv_to_event)" by (simp add: sample_defs validate_file_event_def)
  have h7: "is_rename_to (action mv_to_event)" by (simp add: sample_defs is_rename_to_def)
  have h8: "cookie mv_to_event = 7" by (simp add: sample_defs)
  have h9: "list_all (leaves_cookie 7) [touch_event]"
    by (simp add: sample_defs leaves_cookie_def is_rename_def ACT_defs)
  have a: "after_events sample_clock [touch_event] running_logger =
      running_logger
        \<lparr>log_lines :=
           [''2025-11-02 09:30:00.123,/usr/bin/touch,1000,42,file-created,/tmp/a'' @ [LF]],
         clock_calls := 1\<rparr>"
    by (simp add: after_events_def sample_defs format_defs ACT_defs validate_file_event_def
          log_handler_def)
  have b: "format_rename_event_csv (sample_clock (Suc 0)) mv_from_event mv_to_event =
      ''2025-11-02 09:30:01.123,/bin/mv,1000,43,file-renamed,/x/old,/x/new'' @ [LF]"
    by (simp add: sample_defs format_defs ACT_defs)
  from rename_pairing [OF h1 h2 h3 h4 h5 h6 h7 h8 h9, of sample_clock "[]"]
  have "worker_loop sample_clock (mv_from_event # [touch_event] @ mv_to_event # []) running_logger =
        worker_loop sample_clock []
          (log_handler
            (format_rename_event_csv
              (sample_clock (clock_calls (after_events sample_clock [touch_event] running_logger)))
              mv_from_event mv_to_event)
            ((after_events sample_clock [touch_event] running_logger)
               \<lparr>clock_calls := Suc (clock_calls (after_events sample_clock [touch_event] running_logger))\<rparr>))"
    by blast
  then have "worker_loop sample_clock (mv_from_event # [touch_event] @ mv_to_event # []) running_logger =
     (Blocked, [],
      running_logger
        \<lparr>log_lines :=
           [''2025-11-02 09:30:00.123,/usr/bin/touch,1000,42,file-created,/tmp/a'' @ [LF],
            ''2025-11-02 09:30:01.123,/bin/mv,1000,43,file-renamed,/x/old,/x/new'' @ [LF]],
         clock_calls := 2\<rparr>)"
    unfolding a by (simp add: b b [unfolded One_nat_def [symmetric]] log_handler_def running_logger_def event_logger_new_def)
  with h1 h2 h3 h4 h5 h6 h7 h8 h9 show ?thesis by blast
qed

text \<open>The warnings do not steer the worker: it only adds to them.\<close>

lemma handle_rename_event_warnings:
  "handle_rename_event clk (logger\<lparr>warnings := ws\<rparr>) ev =
     (handle_rename_event clk logger ev)\<lparr>warnings := ws\<rparr>
   \<and> warnings (handle_rename_event clk logger ev) = warnings logger"
  by (simp add: handle_rename_event_def log_handler_def Let_def split: option.split)

lemma worker_loop_adds_warnings:
  "\<exists>added. warnings (snd (snd (worker_loop clk queue logger))) = warnings logger @ added"
proof (induction queue arbitrary: logger)
  case Nil
  then show ?case by simp
next
  case (Cons e queue)
  let ?invalid = "logger\<lparr>warnings := warnings logger @ snd (validate_file_event e) @
                                          [''Discarding invalid event'']\<rparr>"
  let ?renamed = "handle_rename_event clk logger e"
  let ?single = "log_handler (format_single_event_csv (clk (clock_calls logger)) e)
                   (logger\<lparr>clock_calls := Suc (clock_calls logger)\<rparr>)"
  obtain a1 where a1: "warnings (snd (snd (worker_loop clk queue ?invalid))) =
      warnings ?invalid @ a1" using Cons.IH by blast
  obtain a2 where a2: "warnings (snd (snd (worker_loop clk queue ?renamed))) =
      warnings ?renamed @ a2" using Cons.IH by blast
  obtain a3 where a3: "warnings (snd (snd (worker_loop clk queue ?single))) =
      warnings ?single @ a3" using Cons.IH by blast
  have w2: "warnings ?renamed = warnings logger"
    by (simp add: handle_rename_event_warnings)
  have w3: "warnings ?single = warnings logger" by (simp add: log_handler_def)
  show ?case
    using a1 a2 a3 w2 w3 by simp
qed

lemma worker_loop_warnings:
  "worker_loop clk queue (logger\<lparr>warnings := ws\<rparr>) =
     (case worker_loop clk queue logger of
        (status, left, logger') \<Rightarrow>
          (status, left,
           logger'\<lparr>warnings := ws @ drop (length (warnings logger)) (warnings logger')\<rparr>))"
proof (induction queue arbitrary: logger ws)
  case Nil
  then show ?case by simp
next
  case (Cons e queue)
  let ?v = "snd (validate_file_event e) @ [''Discarding invalid event'']"
  let ?invalid = "logger\<lparr>warnings := warnings logger @ ?v\<rparr>"
  let ?renamed = "handle_rename_event clk logger e"
  let ?single = "log_handler (format_single_event_csv (clk (clock_calls logger)) e)
                   (logger\<lparr>clock_calls := Suc (clock_calls logger)\<rparr>)"
  obtain a1 where a1: "warnings (snd (snd (worker_loop clk queue ?invalid))) =
      warnings ?invalid @ a1" using worker_loop_adds_warnings by blast
  have i1: "worker_loop clk queue (?invalid\<lparr>warnings := ws @ ?v\<rparr>) =
     (case worker_loop clk queue ?invalid of
        (status, left, logger') \<Rightarrow>
          (status, left,
           logger'\<lparr>warnings := (ws @ ?v) @ drop (length (warnings ?invalid)) (warnings logger')\<rparr>))"
    by (rule Cons.IH)
  have e1: "(logger\<lparr>warnings := ws\<rparr>)\<lparr>warnings := warnings (logger\<lparr>warnings := ws\<rparr>) @ ?v\<rparr> =
            ?invalid\<lparr>warnings := ws @ ?v\<rparr>" by simp
  have d1: "(ws @ ?v) @ drop (length (warnings ?invalid))
               (warnings (snd (snd (worker_loop clk queue ?invalid)))) =
            ws @ drop (length (warnings logger))
               (warnings (snd (snd (worker_loop clk queue ?invalid))))"
    unfolding a1 by simp
  have c1: "worker_loop clk queue
              ((logger\<lparr>warnings := ws\<rparr>)\<lparr>warnings := warnings (logger\<lparr>warnings := ws\<rparr>) @ ?v\<rparr>) =
     (case worker_loop clk queue ?invalid of
        (status, left, logger') \<Rightarrow>
          (status, left,
           logger'\<lparr>warnings := ws @ drop (length (warnings logger)) (warnings logger')\<rparr>))"
    unfolding e1 i1 using d1 by (simp add: case_prod_beta)
  have i2: "worker_loop clk queue (?renamed\<lparr>warnings := ws\<rparr>) =
     (case worker_loop clk queue ?renamed of
        (status, left, logger') \<Rightarrow>
          (status, left,
           logger'\<lparr>warnings := ws @ drop (length (warnings ?renamed)) (warnings logger')\<rparr>))"
    by (rule Cons.IH)
  have c2: "worker_loop clk queue (handle_rename_event clk (logger\<lparr>warnings := ws\<rparr>) e) =
     (case worker_loop clk queue ?renamed of
        (status, left, logger') \<Rightarrow>
          (status, left,
           logger'\<lparr>warnings := ws @ drop (length (warnings logger)) (warnings logger')\<rparr>))"
    using i2 by (simp add: handle_rename_event_warnings)
  have i3: "worker_loop clk queue (?single\<lparr>warnings := ws\<rparr>) =
     (case worker_loop clk queue ?single of
        (status, left, logger') \<Rightarrow>
          (status, left,
           logger'\<lparr>warnings := ws @ drop (length (warnings ?single)) (warnings logger')\<rparr>))"
    by (rule Cons.IH)
  have e3: "log_handler
              (format_single_event_csv (clk (clock_calls (logger\<lparr>warnings := ws\<rparr>))) e)
              ((logger\<lparr>warnings := ws\<rparr>)\<lparr>clock_calls := Suc (clock_calls (logger\<lparr>warnings := ws\<rparr>))\<rparr>) =
            ?single\<lparr>warnings := ws\<rparr>"
    by (simp add: log_handler_def)
  have c3: "worker_loop clk queue
              (log_handler
                 (format_single_event_csv (clk (clock_calls (logger\<lparr>warnings := ws\<rparr>))) e)
                 ((logger\<lparr>warnings := ws\<rparr>)\<lparr>clock_calls := Suc (clock_calls (logger\<lparr>warnings := ws\<rparr>))\<rparr>)) =
     (case worker_loop clk queue ?single of
        (status, left, logger') \<Rightarrow>
          (status, left,
           logger'\<lparr>warnings := ws @ drop (length (warnings logger)) (warnings logger')\<rparr>))"
    unfolding e3 i3 by (simp add: log_handler_def)
  show ?case
    unfolding worker_loop_Cons [of clk e queue "logger\<lparr>warnings := ws\<rparr>"]
      worker_loop_Cons [of clk e queue logger] c1 c2 c3
    by simp
qed

text \<open>
  C7. Let the worker be running and let it take from the queue an event that has an
  empty process path, an empty event path or a pid that is not positive, and that is
  not the termination event. Then validation gives one warning that names the first
  field found wrong, the worker gives the warning \<^verbatim>\<open>Discarding invalid event\<close>, and it
  goes on with the rest of the queue: apart from these two warnings, its result is the
  one it would have reached had the event never been queued, so the event leaves no
  line and the events behind it are processed as usual. The validation does not look at
  the action, and the same event with the invalid sentinel as its action (the code 100,
  which is the termination event) makes the worker return with the rest of the queue
  unread.
\<close>

theorem invalid_event_discarded:
  assumes "is_running logger"
    and "action ev \<noteq> ACT_TERMINATE"
    and "process_path ev = [] \<or> event_path ev = [] \<or> sint (pid ev) \<le> 0"
  shows "validate_file_event ev =
           (False,
            [if process_path ev = [] then ''FileEvent has invalid process_path''
             else if event_path ev = [] then ''FileEvent has invalid event_path''
             else ''FileEvent has invalid PID: '' @ printf_d (sint (pid ev))])
         \<and> worker_thread_func clk (logger\<lparr>event_queue := ev # queue\<rparr>) =
             worker_thread_func clk
               (logger\<lparr>event_queue := queue,
                       warnings := warnings logger @ snd (validate_file_event ev) @
                                   [''Discarding invalid event'']\<rparr>)
         \<and> worker_thread_func clk (logger\<lparr>event_queue := ev # queue\<rparr>) =
             (case worker_thread_func clk (logger\<lparr>event_queue := queue\<rparr>) of
                (status, logger') \<Rightarrow>
                  (status,
                   logger'\<lparr>warnings :=
                             warnings logger @ snd (validate_file_event ev) @
                             [''Discarding invalid event''] @
                             drop (length (warnings logger)) (warnings logger')\<rparr>))
         \<and> validate_file_event (ev\<lparr>action := a\<rparr>) = validate_file_event ev
         \<and> worker_thread_func clk
               (logger\<lparr>event_queue := ev\<lparr>action := ACT_INVALID\<rparr> # queue\<rparr>) =
             (Returned, logger\<lparr>event_queue := queue\<rparr>)"
proof -
  let ?v = "snd (validate_file_event ev) @ [''Discarding invalid event'']"
  have d: "validate_file_event (ev\<lparr>action := a\<rparr>) = validate_file_event ev"
    by (simp add: validate_file_event_def)
  have e: "worker_thread_func clk
               (logger\<lparr>event_queue := ev\<lparr>action := ACT_INVALID\<rparr> # queue\<rparr>) =
             (Returned, logger\<lparr>event_queue := queue\<rparr>)"
    using assms(1) by (simp add: worker_thread_func_def ACT_defs)
  have v: "validate_file_event ev =
           (False,
            [if process_path ev = [] then ''FileEvent has invalid process_path''
             else if event_path ev = [] then ''FileEvent has invalid event_path''
             else ''FileEvent has invalid PID: '' @ printf_d (sint (pid ev))])"
    using assms(3) by (auto simp add: validate_file_event_def)
  then have nv: "\<not> fst (validate_file_event ev)" by simp
  have step: "worker_loop clk (ev # queue) (logger\<lparr>event_queue := []\<rparr>) =
              worker_loop clk queue
                (logger\<lparr>event_queue := [], warnings := warnings logger @ ?v\<rparr>)"
    using assms(1,2) nv by simp
  have comm: "logger\<lparr>event_queue := [], warnings := warnings logger @ ?v\<rparr> =
              logger\<lparr>warnings := warnings logger @ ?v, event_queue := []\<rparr>"
    by (cases logger) simp
  have a: "worker_thread_func clk (logger\<lparr>event_queue := ev # queue\<rparr>) =
           worker_thread_func clk
             (logger\<lparr>event_queue := queue, warnings := warnings logger @ ?v\<rparr>)"
    by (simp add: worker_thread_func_def step comm del: worker_loop_Cons)
  have w: "worker_loop clk queue
             ((logger\<lparr>event_queue := []\<rparr>)\<lparr>warnings := warnings logger @ ?v\<rparr>) =
     (case worker_loop clk queue (logger\<lparr>event_queue := []\<rparr>) of
        (status, left, logger') \<Rightarrow>
          (status, left,
           logger'\<lparr>warnings := (warnings logger @ ?v) @
                     drop (length (warnings (logger\<lparr>event_queue := []\<rparr>))) (warnings logger')\<rparr>))"
    by (rule worker_loop_warnings)
  have b: "worker_thread_func clk (logger\<lparr>event_queue := ev # queue\<rparr>) =
             (case worker_thread_func clk (logger\<lparr>event_queue := queue\<rparr>) of
                (status, logger') \<Rightarrow>
                  (status,
                   logger'\<lparr>warnings :=
                             warnings logger @ ?v @
                             drop (length (warnings logger)) (warnings logger')\<rparr>))"
    by (simp add: worker_thread_func_def step w case_prod_beta del: worker_loop_Cons)
  show ?thesis using v a b d e by (simp del: worker_loop_Cons)
qed


theorem invalid_event_discarded_witness:
  "is_running running_logger \<and> action bad_pid_event \<noteq> ACT_TERMINATE \<and>
   sint (pid bad_pid_event) \<le> 0 \<and>
   validate_file_event bad_pid_event = (False, [''FileEvent has invalid PID: 0'']) \<and>
   worker_thread_func sample_clock (running_logger\<lparr>event_queue := [touch_event]\<rparr>) =
     (Blocked,
      running_logger
        \<lparr>log_lines :=
           [''2025-11-02 09:30:00.123,/usr/bin/touch,1000,42,file-created,/tmp/a'' @ [LF]],
         clock_calls := 1\<rparr>) \<and>
   worker_thread_func sample_clock (running_logger\<lparr>event_queue := [bad_pid_event, touch_event]\<rparr>) =
     (Blocked,
      running_logger
        \<lparr>log_lines :=
           [''2025-11-02 09:30:00.123,/usr/bin/touch,1000,42,file-created,/tmp/a'' @ [LF]],
         clock_calls := 1,
         warnings := [''FileEvent has invalid PID: 0'', ''Discarding invalid event'']\<rparr>)"
proof -
  have h1: "is_running running_logger" by (simp add: sample_defs)
  have h2: "action bad_pid_event \<noteq> ACT_TERMINATE"
    by (simp add: bad_pid_event_def sample_defs ACT_defs)
  have h3: "sint (pid bad_pid_event) \<le> 0" by (simp add: bad_pid_event_def)
  have h3': "process_path bad_pid_event = [] \<or> event_path bad_pid_event = [] \<or>
             sint (pid bad_pid_event) \<le> 0" using h3 by simp
  have p: "process_path bad_pid_event \<noteq> []" "event_path bad_pid_event \<noteq> []"
    "printf_d (sint (pid bad_pid_event)) = ''0''"
    by (simp_all add: bad_pid_event_def sample_defs printf_d_def dec_eval)
  have w: "warnings running_logger = []" by (simp add: sample_defs)
  have r: "worker_thread_func sample_clock (running_logger\<lparr>event_queue := [touch_event]\<rparr>) =
     (Blocked,
      running_logger
        \<lparr>log_lines :=
           [''2025-11-02 09:30:00.123,/usr/bin/touch,1000,42,file-created,/tmp/a'' @ [LF]],
         clock_calls := 1\<rparr>)"
    by (simp add: worker_thread_func_def sample_defs format_defs ACT_defs validate_file_event_def
          log_handler_def)
  note t = invalid_event_discarded [OF h1 h2 h3', of sample_clock "[touch_event]"]
  have v: "validate_file_event bad_pid_event = (False, [''FileEvent has invalid PID: 0''])"
    using t [THEN conjunct1] p by simp
  have d: "worker_thread_func sample_clock
              (running_logger\<lparr>event_queue := [bad_pid_event, touch_event]\<rparr>) =
             (case worker_thread_func sample_clock (running_logger\<lparr>event_queue := [touch_event]\<rparr>) of
                (status, logger') \<Rightarrow>
                  (status,
                   logger'\<lparr>warnings :=
                             warnings running_logger @ snd (validate_file_event bad_pid_event) @
                             [''Discarding invalid event''] @
                             drop (length (warnings running_logger)) (warnings logger')\<rparr>))"
    by (rule t [THEN conjunct2, THEN conjunct2, THEN conjunct1])
  have "worker_thread_func sample_clock
          (running_logger\<lparr>event_queue := [bad_pid_event, touch_event]\<rparr>) =
     (Blocked,
      running_logger
        \<lparr>log_lines :=
           [''2025-11-02 09:30:00.123,/usr/bin/touch,1000,42,file-created,/tmp/a'' @ [LF]],
         clock_calls := 1,
         warnings := [''FileEvent has invalid PID: 0'', ''Discarding invalid event'']\<rparr>)"
    unfolding d r v by (simp add: w)
  then show ?thesis using h1 h2 h3 v r by simp
qed

text \<open>
  The claim C7 as stated fails for the invalid sentinel: an event whose action is
  \<open>ACT_INVALID\<close> (100, the code of the termination event) makes the worker return, and
  the event queued behind it is not processed.
\<close>

theorem invalid_sentinel_stops_worker:
  "action invalid_action_event = ACT_INVALID \<and>
   worker_thread_func sample_clock
     (running_logger\<lparr>event_queue := [invalid_action_event, touch_event]\<rparr>) =
     (Returned, running_logger\<lparr>event_queue := [touch_event]\<rparr>) \<and>
   log_lines (running_logger\<lparr>event_queue := [touch_event]\<rparr>) = []"
  by (simp add: worker_thread_func_def invalid_action_event_def sample_defs ACT_defs)

text \<open>
  C10. An event submitted while the logger is not running (as a new logger is) is
  dropped: the logger, and with it the queue, the pending renames and the lines
  written, stays as it was, and the worker does afterwards what it would have done
  without the call.
\<close>

theorem log_event_when_stopped:
  "\<not> is_running logger \<Longrightarrow>
     event_logger_log_event logger ev = logger \<and>
     worker_thread_func clk (event_logger_log_event logger ev) =
       worker_thread_func clk logger"
  by (simp add: event_logger_log_event_def)

theorem log_event_when_stopped_witness:
  "\<not> is_running event_logger_new \<and>
   event_logger_log_event event_logger_new
     \<lparr>action = 0, cookie = 0, major = 8, minor = 1, event_path = ''/tmp/stopped.txt'',
      uid = 1000, pid = 42, process_path = ''/usr/bin/touch''\<rparr> = event_logger_new"
  using log_event_when_stopped [of event_logger_new
     "\<lparr>action = 0, cookie = 0, major = 8, minor = 1, event_path = ''/tmp/stopped.txt'',
      uid = 1000, pid = 42, process_path = ''/usr/bin/touch''\<rparr>"]
  by (simp add: event_logger_new_def)

section \<open>Properties of the CSV lines\<close>

lemma rfc4180_run_append:
  "rfc4180_run s (xs @ ys) =
     (case rfc4180_run s xs of None \<Rightarrow> None | Some s' \<Rightarrow> rfc4180_run s' ys)"
  by (induction xs arbitrary: s) (simp_all split: option.split)

lemma run_plain:
  "\<not> list_ex csv_special f \<Longrightarrow>
   rfc4180_run (InPlain, cur, fs) f = Some (InPlain, cur @ f, fs)"
  by (induction f arbitrary: cur) (simp_all add: csv_special_def)

lemma run_plain_field:
  assumes "\<not> list_ex csv_special f"
  shows "rfc4180_run (AtStart, [], fs) (f @ COMMA # rest) =
           rfc4180_run (AtStart, [], fs @ [f]) rest"
    and "rfc4180_run (AtStart, [], fs) (f @ [LF]) = Some (AtEnd, [], fs @ [f])"
proof -
  show "rfc4180_run (AtStart, [], fs) (f @ COMMA # rest) =
           rfc4180_run (AtStart, [], fs @ [f]) rest"
  proof (cases f)
    case Nil
    then show ?thesis by simp
  next
    case (Cons c f')
    then have c: "\<not> csv_special c" and f': "\<not> list_ex csv_special f'"
      using assms by simp_all
    show ?thesis
      using c run_plain [OF f', of "[c]" fs]
      by (simp add: Cons csv_special_def rfc4180_run_append)
  qed
  show "rfc4180_run (AtStart, [], fs) (f @ [LF]) = Some (AtEnd, [], fs @ [f])"
  proof (cases f)
    case Nil
    then show ?thesis by simp
  next
    case (Cons c f')
    then have c: "\<not> csv_special c" and f': "\<not> list_ex csv_special f'"
      using assms by simp_all
    show ?thesis
      using c run_plain [OF f', of "[c]" fs]
      by (simp add: Cons csv_special_def rfc4180_run_append)
  qed
qed

lemma run_quoted:
  "rfc4180_run (InQuoted, cur, fs) (double_quotes f @ rest) =
     rfc4180_run (InQuoted, cur @ f, fs) rest"
  by (induction f arbitrary: cur) simp_all

lemma run_escaped_field:
  "rfc4180_run (AtStart, [], fs) (escaped_or_original f @ COMMA # rest) =
     rfc4180_run (AtStart, [], fs @ [f]) rest"
  "rfc4180_run (AtStart, [], fs) (escaped_or_original f @ [LF]) =
     Some (AtEnd, [], fs @ [f])"
proof -
  show "rfc4180_run (AtStart, [], fs) (escaped_or_original f @ COMMA # rest) =
     rfc4180_run (AtStart, [], fs @ [f]) rest"
  proof (cases "list_ex csv_special f")
    case False
    then show ?thesis
      using run_plain_field(1) [OF False]
      by (simp add: escaped_or_original_def escape_csv_field_def)
  next
    case True
    then show ?thesis
      using run_quoted [of "[]" fs f "DQUOTE # COMMA # rest"]
      by (simp add: escaped_or_original_def escape_csv_field_def)
  qed
  show "rfc4180_run (AtStart, [], fs) (escaped_or_original f @ [LF]) =
     Some (AtEnd, [], fs @ [f])"
  proof (cases "list_ex csv_special f")
    case False
    then show ?thesis
      using run_plain_field(2) [OF False]
      by (simp add: escaped_or_original_def escape_csv_field_def)
  next
    case True
    then show ?thesis
      using run_quoted [of "[]" fs f "[DQUOTE, LF]"]
      by (simp add: escaped_or_original_def escape_csv_field_def)
  qed
qed

lemma digit_plain: "k < 10 \<Longrightarrow> \<not> csv_special (''0123456789'' ! k)"
proof -
  assume "k < 10"
  then have "''0123456789'' ! k \<in> set ''0123456789''"
    by (intro nth_mem) simp
  then show ?thesis by (auto simp add: csv_special_def)
qed

lemma dec_plain: "\<not> list_ex csv_special (dec n)"
proof (induction n rule: dec.induct)
  case (1 n)
  show ?case
  proof (cases "n < 10")
    case True
    then show ?thesis using digit_plain [of n] by (subst dec.simps) simp
  next
    case False
    then show ?thesis
      using 1 digit_plain [of "n mod 10"] by (subst dec.simps) simp
  qed
qed

lemma printf_d_plain: "\<not> list_ex csv_special (printf_d i)"
proof -
  have "\<not> csv_special CHR ''-''" by (simp add: csv_special_def)
  then show ?thesis using dec_plain by (simp add: printf_d_def)
qed

lemma zero_pad_plain:
  assumes "\<not> list_ex csv_special s"
  shows "\<not> list_ex csv_special (zero_pad w s)"
proof -
  have "\<not> csv_special CHR ''0''" by (simp add: csv_special_def)
  then have "\<not> list_ex csv_special (replicate (w - length s) CHR ''0'')"
    by (induction "w - length s" arbitrary: w) (simp_all add: list_ex_iff)
  then show ?thesis using assms by (simp add: zero_pad_def)
qed

lemma printf_0d_plain: "\<not> list_ex csv_special (printf_0d w i)"
proof (cases "i < 0")
  case True
  have "\<not> csv_special CHR ''-''" by (simp add: csv_special_def)
  then show ?thesis
    using True zero_pad_plain [OF dec_plain] by (simp add: printf_0d_def)
next
  case False
  then show ?thesis
    using zero_pad_plain [OF dec_plain] by (simp add: printf_0d_def)
qed

lemma list_ex_take: "\<not> list_ex P xs \<Longrightarrow> \<not> list_ex P (take n xs)"
  by (auto simp add: list_ex_iff dest: in_set_takeD)

lemma timestamp_plain: "\<not> list_ex csv_special (get_timestamp_string now)"
proof (cases now)
  case (Now t usec)
  have "\<not> list_ex csv_special
            (printf_0d 4 (tm_year t + 1900) @ ''-'' @ printf_0d 2 (tm_mon t + 1) @ ''-'' @
             printf_0d 2 (tm_mday t) @ '' '' @ printf_0d 2 (tm_hour t) @ '':'' @
             printf_0d 2 (tm_min t) @ '':'' @ printf_0d 2 (tm_sec t) @ ''.'' @
             printf_0d 3 (c_div usec 1000))"
    using printf_0d_plain by (simp add: csv_special_def)
  then show ?thesis
    unfolding get_timestamp_string_def Now clock_reading.case by (rule list_ex_take)
qed (simp_all add: get_timestamp_string_def csv_special_def)

lemma action_name_plain: "\<not> list_ex csv_special (event_action_to_string a)"
  by (simp add: event_action_to_string_def csv_special_def)

lemma double_quotes_concat:
  "double_quotes f = concat (map (\<lambda>c. if c = DQUOTE then [DQUOTE, DQUOTE] else [c]) f)"
  by (induction f) simp_all

text \<open>
  C2. A field that holds a comma, a double quote, a line feed or a carriage return is
  written between double quotes with every double quote of it written twice, and every
  other field is written as it is. The reader of RFC 4180 records reads from the line
  of an event the fields that were formatted, the process path and the event path
  byte for byte; so it does from the line of a rename pair.
\<close>

theorem csv_round_trip:
  "escaped_or_original f =
     (if list_ex csv_special f
      then [DQUOTE] @ concat (map (\<lambda>c. if c = DQUOTE then [DQUOTE, DQUOTE] else [c]) f) @ [DQUOTE]
      else f)
   \<and> rfc4180_parse_record (format_single_event_csv now ev) =
       Some [get_timestamp_string now, process_path ev, dec (unat (uid ev)),
             printf_d (sint (pid ev)), event_action_to_string (action ev),
             event_path ev]
   \<and> rfc4180_parse_record (format_rename_event_csv now from_event to_event) =
       Some [get_timestamp_string now, process_path from_event, dec (unat (uid from_event)),
             printf_d (sint (pid from_event)), event_action_to_string (action from_event),
             event_path from_event, event_path to_event]"
proof -
  have e: "escaped_or_original f =
     (if list_ex csv_special f
      then [DQUOTE] @ concat (map (\<lambda>c. if c = DQUOTE then [DQUOTE, DQUOTE] else [c]) f) @ [DQUOTE]
      else f)"
    by (simp add: escaped_or_original_def escape_csv_field_def double_quotes_concat)
  have s: "rfc4180_run (AtStart, [], [])  (format_single_event_csv now ev) =
       Some (AtEnd, [], [get_timestamp_string now, process_path ev, dec (unat (uid ev)),
             printf_d (sint (pid ev)), event_action_to_string (action ev),
             event_path ev])"
    unfolding format_single_event_csv_def
    by (simp add: run_plain_field(1) [OF timestamp_plain] run_plain_field(1) [OF dec_plain]
        run_plain_field(1) [OF printf_d_plain] run_plain_field(1) [OF action_name_plain]
        run_escaped_field)
  have r: "rfc4180_run (AtStart, [], [])  (format_rename_event_csv now from_event to_event) =
       Some (AtEnd, [], [get_timestamp_string now, process_path from_event, dec (unat (uid from_event)),
             printf_d (sint (pid from_event)), event_action_to_string (action from_event),
             event_path from_event, event_path to_event])"
    unfolding format_rename_event_csv_def
    by (simp add: run_plain_field(1) [OF timestamp_plain] run_plain_field(1) [OF dec_plain]
        run_plain_field(1) [OF printf_d_plain] run_plain_field(1) [OF action_name_plain]
        run_escaped_field)
  show ?thesis
    using e by (simp add: rfc4180_parse_record_def s r)
qed

section \<open>Properties of the configuration cache\<close>

lemma clamp_le: "(if M < x then M else x) \<le> (M :: 32 word)"
  by (auto simp add: not_less)

lemma load_all_values_bounds:
  "log_file_count (config_load_all_values config) \<le> LOG_FILE_COUNT_MAX \<and>
   log_file_size (config_load_all_values config) \<le> LOG_FILE_SIZE_MAX"
  by (simp add: config_load_all_values_def Let_def case_prod_beta clamp_le
      split del: if_split)

lemma changed_handler_bounds:
  assumes "log_file_count config \<le> LOG_FILE_COUNT_MAX"
    and "log_file_size config \<le> LOG_FILE_SIZE_MAX"
  shows "log_file_count (config_dconfig_changed_handler key config) \<le> LOG_FILE_COUNT_MAX \<and>
         log_file_size (config_dconfig_changed_handler key config) \<le> LOG_FILE_SIZE_MAX"
proof -
  consider (count) "key = ''log_file_count''" | (size) "key = ''log_file_size''"
    | (other) "key \<noteq> ''log_file_count''" "key \<noteq> ''log_file_size''"
    by blast
  then show ?thesis
  proof cases
    case count
    then show ?thesis
      using assms
      by (simp add: config_dconfig_changed_handler_def notify_change_def Let_def
          case_prod_beta not_less)
  next
    case size
    then show ?thesis
      using assms
      by (simp add: config_dconfig_changed_handler_def notify_change_def Let_def
          case_prod_beta not_less)
  next
    case other
    then show ?thesis
      using assms
      by (simp add: config_dconfig_changed_handler_def notify_change_def Let_def
          case_prod_beta)
  qed
qed

lemma config_changes_bounds:
  "log_file_count config \<le> LOG_FILE_COUNT_MAX \<Longrightarrow>
   log_file_size config \<le> LOG_FILE_SIZE_MAX \<Longrightarrow>
   log_file_count (config_changes changes config) \<le> LOG_FILE_COUNT_MAX \<and>
   log_file_size (config_changes changes config) \<le> LOG_FILE_SIZE_MAX"
proof (induction changes arbitrary: config)
  case Nil
  then show ?case by simp
next
  case (Cons ch changes)
  obtain b key where ch: "ch = (b, key)" by (cases ch)
  let ?c = "config\<lparr>dconfig := (dconfig config)\<lparr>bus := b\<rparr>\<rparr>"
  have "log_file_count ?c \<le> LOG_FILE_COUNT_MAX" "log_file_size ?c \<le> LOG_FILE_SIZE_MAX"
    using Cons.prems by simp_all
  then have "log_file_count (config_dconfig_changed_handler key ?c) \<le> LOG_FILE_COUNT_MAX"
    "log_file_size (config_dconfig_changed_handler key ?c) \<le> LOG_FILE_SIZE_MAX"
    using changed_handler_bounds [of ?c key] by simp_all
  then show ?case
    using Cons.IH [of "config_dconfig_changed_handler key ?c"] by (simp add: ch)
qed

lemma sint_32:
  fixes v :: "32 word"
  shows "sint v = (if uint v < 2 ^ 31 then uint v else uint v - 2 ^ 32)"
proof -
  have s: "sint v = (uint v + 2 ^ 31) mod 2 ^ 32 - 2 ^ 31"
    by (simp add: sint_uint signed_take_bit_eq_take_bit_shift take_bit_eq_mod del: power_numeral)
  have b: "0 \<le> uint v" "uint v < 2 ^ 32"
    using uint_lt2p [of v] by simp_all
  have p: "(2::int) ^ 32 = 2 ^ 31 + 2 ^ 31" by simp
  show ?thesis
  proof (cases "uint v < 2 ^ 31")
    case True
    then have "(uint v + 2 ^ 31) mod 2 ^ 32 = uint v + 2 ^ 31"
      using b unfolding p by (intro mod_pos_pos_trivial) simp_all
    then show ?thesis using s True by simp
  next
    case False
    have "(uint v + 2 ^ 31) mod 2 ^ 32 = (uint v + 2 ^ 31 - 2 ^ 32) mod 2 ^ 32"
      by (metis mod_diff_right_eq mod_self diff_zero)
    also have "\<dots> = uint v + 2 ^ 31 - 2 ^ 32"
      using b False unfolding p by (intro mod_pos_pos_trivial) simp_all
    finally show ?thesis using s False by simp
  qed
qed

text \<open>
  The comparison of the code is one of \<^verbatim>\<open>guint\<close>: a value is above the maximum when, read
  as the \<^verbatim>\<open>gint\<close> that was delivered, it is greater than the maximum or negative.
\<close>

lemma clamp_signed:
  fixes v :: "32 word"
  assumes "uint m < 2 ^ 31"
  shows "unat (if m < v then m else v) =
     (if sint v < 0 \<or> uint m < sint v then unat m else nat (sint v))"
proof (cases "uint v < 2 ^ 31")
  case True
  then have s: "sint v = uint v" by (simp only: sint_32 if_True)
  have n: "\<not> uint v < 0" by simp
  have u: "nat (uint v) = unat v" by (rule unat_eq_nat_uint [symmetric])
  show ?thesis
  proof (cases "m < v")
    case True
    then have "uint m < uint v" by (simp only: word_less_def)
    then show ?thesis using True s by (simp only: if_True simp_thms)
  next
    case False
    then have "\<not> uint m < uint v" by (simp add: word_less_def)
    then show ?thesis using False s u by simp
  qed
next
  case False
  then have s: "sint v = uint v - 2 ^ 32" by (simp only: sint_32 if_False)
  have lt: "uint v < 2 ^ 32" using uint_lt2p [of v] by simp
  have neg: "sint v < 0" unfolding s using lt by linarith
  have "uint m < uint v" using False assms by linarith
  then have "m < v" by (simp only: word_less_def)
  then show ?thesis using neg by (simp only: if_True simp_thms)
qed

lemma clamp_count:
  "unat (if LOG_FILE_COUNT_MAX < v then LOG_FILE_COUNT_MAX else v) =
     (if sint v < 0 \<or> 20 < sint v then 20 else nat (sint v))"
  using clamp_signed [of LOG_FILE_COUNT_MAX v] by (simp add: LOG_FILE_COUNT_MAX_def)

lemma clamp_size:
  "unat (if LOG_FILE_SIZE_MAX < v then LOG_FILE_SIZE_MAX else v) =
     (if sint v < 0 \<or> 100 < sint v then 100 else nat (sint v))"
  using clamp_signed [of LOG_FILE_SIZE_MAX v] by (simp add: LOG_FILE_SIZE_MAX_def)

lemma load_all_values_exact:
  "log_file_count (config_load_all_values config) =
     (let v = (case dconfig_get_int (dconfig config) ''log_file_count'' of
                 (n, err) \<Rightarrow> if err then LOG_FILE_COUNT_DEFAULT else n)
      in if LOG_FILE_COUNT_MAX < v then LOG_FILE_COUNT_MAX else v)"
  "log_file_size (config_load_all_values config) =
     (let v = (case dconfig_get_int (dconfig config) ''log_file_size'' of
                 (n, err) \<Rightarrow> if err then LOG_FILE_SIZE_DEFAULT else n)
      in if LOG_FILE_SIZE_MAX < v then LOG_FILE_SIZE_MAX else v)"
  by (simp_all add: config_load_all_values_def Let_def case_prod_beta split del: if_split)

lemma changed_handler_exact:
  "log_file_count (config_dconfig_changed_handler key config) =
     (case dconfig_get_int (dconfig config) key of
        (n, err) \<Rightarrow>
          if key = ''log_file_count'' \<and> \<not> err
          then (if LOG_FILE_COUNT_MAX < n then LOG_FILE_COUNT_MAX else n)
          else log_file_count config)"
  "log_file_size (config_dconfig_changed_handler key config) =
     (case dconfig_get_int (dconfig config) key of
        (n, err) \<Rightarrow>
          if key = ''log_file_size'' \<and> \<not> err
          then (if LOG_FILE_SIZE_MAX < n then LOG_FILE_SIZE_MAX else n)
          else log_file_size config)"
proof -
  consider (count) "key = ''log_file_count''" | (size) "key = ''log_file_size''"
    | (other) "key \<noteq> ''log_file_count''" "key \<noteq> ''log_file_size''"
    by blast
  then show
    "log_file_count (config_dconfig_changed_handler key config) =
     (case dconfig_get_int (dconfig config) key of
        (n, err) \<Rightarrow>
          if key = ''log_file_count'' \<and> \<not> err
          then (if LOG_FILE_COUNT_MAX < n then LOG_FILE_COUNT_MAX else n)
          else log_file_count config)"
  proof cases
    case count
    then show ?thesis
      by (simp add: config_dconfig_changed_handler_def notify_change_def Let_def
          case_prod_beta)
  next
    case size
    then show ?thesis
      by (simp add: config_dconfig_changed_handler_def notify_change_def Let_def
          case_prod_beta)
  next
    case other
    then show ?thesis
      by (simp add: config_dconfig_changed_handler_def notify_change_def Let_def
          case_prod_beta)
  qed
  consider (count) "key = ''log_file_count''" | (size) "key = ''log_file_size''"
    | (other) "key \<noteq> ''log_file_count''" "key \<noteq> ''log_file_size''"
    by blast
  then show
    "log_file_size (config_dconfig_changed_handler key config) =
     (case dconfig_get_int (dconfig config) key of
        (n, err) \<Rightarrow>
          if key = ''log_file_size'' \<and> \<not> err
          then (if LOG_FILE_SIZE_MAX < n then LOG_FILE_SIZE_MAX else n)
          else log_file_size config)"
  proof cases
    case count
    then show ?thesis
      by (simp add: config_dconfig_changed_handler_def notify_change_def Let_def
          case_prod_beta)
  next
    case size
    then show ?thesis
      by (simp add: config_dconfig_changed_handler_def notify_change_def Let_def
          case_prod_beta)
  next
    case other
    then show ?thesis
      by (simp add: config_dconfig_changed_handler_def notify_change_def Let_def
          case_prod_beta)
  qed
qed

text \<open>
  C3. The value delivered for \<open>log_file_count\<close> is the \<^verbatim>\<open>gint\<close> that \<^verbatim>\<open>dconfig_get_int\<close>
  returns; at the initial load a failed read delivers the default. The initial load
  caches the delivered value itself when it lies between 0 and 20, and 20 when it is
  greater than 20 or negative. A change notification for the key does the same with
  the value it reads, and leaves the cache as it is when the read fails or the
  notification is for another key. \<open>log_file_size\<close> is treated alike with the maximum
  100. So, whatever the bus answers at the initial load and at every change
  notification after it, the cached \<open>log_file_count\<close> is at most 20 and the cached
  \<open>log_file_size\<close> is at most 100. (The code clamps from above only.)
\<close>

theorem config_clamping:
  "unat (log_file_count (config_load_all_values config)) =
     (let v = (case dconfig_get_int (dconfig config) ''log_file_count'' of
                 (n, err) \<Rightarrow> if err then LOG_FILE_COUNT_DEFAULT else n)
      in if sint v < 0 \<or> 20 < sint v then 20 else nat (sint v))
   \<and> unat (log_file_size (config_load_all_values config)) =
     (let v = (case dconfig_get_int (dconfig config) ''log_file_size'' of
                 (n, err) \<Rightarrow> if err then LOG_FILE_SIZE_DEFAULT else n)
      in if sint v < 0 \<or> 100 < sint v then 100 else nat (sint v))
   \<and> unat (log_file_count (config_dconfig_changed_handler key cached)) =
     (case dconfig_get_int (dconfig cached) key of
        (n, err) \<Rightarrow>
          if key = ''log_file_count'' \<and> \<not> err
          then (if sint n < 0 \<or> 20 < sint n then 20 else nat (sint n))
          else unat (log_file_count cached))
   \<and> unat (log_file_size (config_dconfig_changed_handler key cached)) =
     (case dconfig_get_int (dconfig cached) key of
        (n, err) \<Rightarrow>
          if key = ''log_file_size'' \<and> \<not> err
          then (if sint n < 0 \<or> 100 < sint n then 100 else nat (sint n))
          else unat (log_file_size cached))
   \<and> unat (log_file_count (config_changes changes (config_load_all_values config))) \<le> 20
   \<and> unat (log_file_size (config_changes changes (config_load_all_values config))) \<le> 100"
proof -
  let ?c = "config_changes changes (config_load_all_values config)"
  have "log_file_count ?c \<le> LOG_FILE_COUNT_MAX \<and> log_file_size ?c \<le> LOG_FILE_SIZE_MAX"
    using load_all_values_bounds [of config] config_changes_bounds by blast
  then have bounds: "unat (log_file_count ?c) \<le> 20" "unat (log_file_size ?c) \<le> 100"
    by (simp_all add: LOG_FILE_COUNT_MAX_def LOG_FILE_SIZE_MAX_def word_le_nat_alt)
  have l1: "unat (log_file_count (config_load_all_values config)) =
     (let v = (case dconfig_get_int (dconfig config) ''log_file_count'' of
                 (n, err) \<Rightarrow> if err then LOG_FILE_COUNT_DEFAULT else n)
      in if sint v < 0 \<or> 20 < sint v then 20 else nat (sint v))"
    unfolding load_all_values_exact Let_def by (rule clamp_count)
  have l2: "unat (log_file_size (config_load_all_values config)) =
     (let v = (case dconfig_get_int (dconfig config) ''log_file_size'' of
                 (n, err) \<Rightarrow> if err then LOG_FILE_SIZE_DEFAULT else n)
      in if sint v < 0 \<or> 100 < sint v then 100 else nat (sint v))"
    unfolding load_all_values_exact Let_def by (rule clamp_size)
  have h1: "unat (log_file_count (config_dconfig_changed_handler key cached)) =
     (case dconfig_get_int (dconfig cached) key of
        (n, err) \<Rightarrow>
          if key = ''log_file_count'' \<and> \<not> err
          then (if sint n < 0 \<or> 20 < sint n then 20 else nat (sint n))
          else unat (log_file_count cached))"
    unfolding changed_handler_exact case_prod_beta
      if_distrib [of unat "key = ''log_file_count'' \<and> \<not> snd (dconfig_get_int (dconfig cached) key)"]
      clamp_count ..
  have h2: "unat (log_file_size (config_dconfig_changed_handler key cached)) =
     (case dconfig_get_int (dconfig cached) key of
        (n, err) \<Rightarrow>
          if key = ''log_file_size'' \<and> \<not> err
          then (if sint n < 0 \<or> 100 < sint n then 100 else nat (sint n))
          else unat (log_file_size cached))"
    unfolding changed_handler_exact case_prod_beta
      if_distrib [of unat "key = ''log_file_size'' \<and> \<not> snd (dconfig_get_int (dconfig cached) key)"]
      clamp_size ..
  show ?thesis using l1 l2 h1 h2 bounds by blast
qed

text \<open>
  The claim C3 as stated fails at the lower end: a bus that answers 0 for both keys
  leaves 0 in the cache, at the initial load and at a change notification.
\<close>

theorem config_zero_not_clamped:
  "map_option log_file_count (config_new (Some (\<lambda>key. Reply (V_int32 0)))) = Some 0 \<and>
   map_option log_file_size (config_new (Some (\<lambda>key. Reply (V_int32 0)))) = Some 0 \<and>
   map_option (\<lambda>c. log_file_count
       (config_changes [(\<lambda>key. Reply (V_int32 0), ''log_file_count'')] c))
     (config_new (Some (\<lambda>key. Reply (V_int32 5)))) = Some 0"
  by (simp add: config_new_def config_load_all_values_def dconfig_get_int_def
      dconfig_get_boolean_def dconfig_get_string_array_def dconfig_get_dconfig_value_def
      config_dconfig_changed_handler_def notify_change_def
      LOG_FILE_COUNT_MAX_def LOG_FILE_SIZE_MAX_def Let_def)

section \<open>Properties of the event listener\<close>

lemmas listener_defs = event_handler_def current_event_def partial_in_flight_def
  file_event_new_def safe_string_copy_def MAX_PATH_LEN_def

lemmas frame_defs = notify_msg_def process_info_msg_def half_built_listener_def
  event_listener_new_def event_listener_set_event_mask_def

lemma small_action_valid: "unat act < 31 \<Longrightarrow> act \<noteq> ACT_INVALID"
  by (auto simp add: ACT_INVALID_def)

text \<open>
  C5. The mask test is made while the NOTIFY frame is handled, before anything of it is
  stored: a NOTIFY whose action bit is not in the mask leaves the listener as it is
  (but for the allocation of an empty slot) and hands nothing to the consumer. A
  NOTIFY_PROCESS_INFO frame with its three attributes that finds an event being built
  fills in uid, pid and process path, hands the completed event to the consumer
  whatever the mask is, and clears the slot.
\<close>

theorem mask_test_at_notify:
  "(parse_ok msg \<and> cmd msg = VFSMONITOR_C_NOTIFY \<and> VFSMONITOR_A_ACT msg = Some act \<and>
    unat act < 31 \<and> act_bit act AND event_mask listener = 0
    \<longrightarrow> event_handler listener msg =
          Some (NL_OK, listener\<lparr>event := Some (current_event listener)\<rparr>))
   \<and>
   (parse_ok msg \<and> cmd msg = VFSMONITOR_C_NOTIFY_PROCESS_INFO \<and>
    event listener = Some e \<and> action e \<noteq> ACT_INVALID \<and> handler listener \<and>
    VFSMONITOR_A_UID msg = Some u \<and> VFSMONITOR_A_TGID msg = Some tgid \<and>
    VFSMONITOR_A_PATH msg = Some path
    \<longrightarrow> event_handler listener msg =
          Some (NL_OK,
                listener\<lparr>handled := handled listener @
                            [e\<lparr>uid := u, pid := tgid,
                               process_path := safe_string_copy path MAX_PATH_LEN\<rparr>],
                         event := None\<rparr>))"
  by (simp add: event_handler_def current_event_def Let_def)

theorem mask_test_at_notify_witness:
  "unat (ACT_DEL_FILE :: 8 word) < 31 \<and>
   act_bit ACT_DEL_FILE AND event_mask (half_built_listener 1) = 0 \<and>
   event_handler (half_built_listener 1) (notify_msg ACT_DEL_FILE 2 ''/tmp/b'') =
     Some (NL_OK, half_built_listener 1) \<and>
   action (the (event (half_built_listener 1))) \<noteq> ACT_INVALID \<and>
   event_handler (half_built_listener 1) (process_info_msg 1000 42 ''/usr/bin/touch'') =
     Some (NL_OK, (half_built_listener 1)\<lparr>handled := [touch_event], event := None\<rparr>)"
proof -
  let ?l = "half_built_listener 1"
  let ?e = "file_event_new\<lparr>action := ACT_NEW_FILE, cookie := 0, major := 8,
                            minor := 1, event_path := ''/tmp/a''\<rparr>"
  have a: "unat (ACT_DEL_FILE :: 8 word) < 31" by (simp add: ACT_defs)
  have b: "act_bit ACT_DEL_FILE AND event_mask ?l = 0"
    by (simp add: act_bit_def ACT_defs frame_defs)
  have c: "event ?l = Some ?e" by (simp add: frame_defs)
  have d: "action ?e \<noteq> ACT_INVALID" by (simp add: ACT_defs)
  have n: "event_handler ?l (notify_msg ACT_DEL_FILE 2 ''/tmp/b'') =
           Some (NL_OK, ?l\<lparr>event := Some (current_event ?l)\<rparr>)"
    using mask_test_at_notify [of "notify_msg ACT_DEL_FILE 2 ''/tmp/b''" ACT_DEL_FILE ?l] a b
    by (simp add: notify_msg_def)
  have p: "event_handler ?l (process_info_msg 1000 42 ''/usr/bin/touch'') =
           Some (NL_OK,
                 ?l\<lparr>handled := handled ?l @
                        [?e\<lparr>uid := 1000, pid := 42,
                            process_path := safe_string_copy ''/usr/bin/touch'' MAX_PATH_LEN\<rparr>],
                     event := None\<rparr>)"
    using mask_test_at_notify [of "process_info_msg 1000 42 ''/usr/bin/touch''" _ ?l ?e
        1000 42 "''/usr/bin/touch''"] c d
    by (simp add: process_info_msg_def half_built_listener_def)
  show ?thesis
    using a b n p
    by (simp add: frame_defs listener_defs touch_event_def ACT_defs)
qed

text \<open>
  The claim C5 as stated fails: with the mask set to 0 after the NOTIFY half was taken,
  the NOTIFY_PROCESS_INFO half still hands the event to the consumer, although its
  action bit is not in the mask. The states are those of a new listener whose mask is
  set to new-file, that receives the NOTIFY frame of scenario S1, and whose mask is
  then set to 0.
\<close>

theorem no_mask_test_at_process_info:
  "event_handler
     (snd (event_listener_set_event_mask True event_listener_new (act_bit ACT_NEW_FILE)))
     (notify_msg ACT_NEW_FILE 0 ''/tmp/a'') = Some (NL_OK, half_built_listener 1) \<and>
   snd (event_listener_set_event_mask True (half_built_listener 1) 0) = half_built_listener 0 \<and>
   act_bit ACT_NEW_FILE AND event_mask (half_built_listener 0) = 0 \<and>
   event_handler (half_built_listener 0) (process_info_msg 1000 42 ''/usr/bin/touch'') =
     Some (NL_OK, (half_built_listener 0)\<lparr>handled := [touch_event], event := None\<rparr>)"
  by (simp add: frame_defs listener_defs touch_event_def act_bit_def ACT_defs)

text \<open>
  C6. The listener has one slot, so at most one event is being built. For frames that
  parse and carry their attributes: after a NOTIFY frame an event is being built if and
  only if the action bit of the frame is in the mask or an event was being built
  before; a NOTIFY frame whose action bit is in the mask overwrites action, cookie,
  device and event path of the slot by its own, whatever was being built, and hands
  nothing to the consumer; after a NOTIFY_PROCESS_INFO frame no event is being built;
  and a NOTIFY_PROCESS_INFO frame that finds no event being built is discarded: nothing
  is handed to the consumer.
\<close>

theorem partial_event_slot:
  "(parse_ok msg \<and> cmd msg = VFSMONITOR_C_NOTIFY \<and> VFSMONITOR_A_ACT msg = Some act \<and>
    unat act < 31 \<and> VFSMONITOR_A_COOKIE msg = Some c \<and> VFSMONITOR_A_MAJOR msg = Some ma \<and>
    VFSMONITOR_A_MINOR msg = Some mi \<and> VFSMONITOR_A_PATH msg = Some path
    \<longrightarrow> (\<exists>listener'. event_handler listener msg = Some (NL_OK, listener') \<and>
          handled listener' = handled listener \<and>
          (partial_in_flight listener' \<longleftrightarrow>
             act_bit act AND event_mask listener \<noteq> 0 \<or> partial_in_flight listener) \<and>
          (act_bit act AND event_mask listener \<noteq> 0 \<longrightarrow>
             event listener' =
               Some ((current_event listener)
                       \<lparr>action := act, cookie := c, major := ma, minor := mi,
                        event_path := safe_string_copy path MAX_PATH_LEN\<rparr>))))
   \<and>
   (parse_ok msg \<and> cmd msg = VFSMONITOR_C_NOTIFY_PROCESS_INFO \<and>
    VFSMONITOR_A_UID msg = Some u \<and> VFSMONITOR_A_TGID msg = Some tgid \<and>
    VFSMONITOR_A_PATH msg = Some path
    \<longrightarrow> (\<exists>listener'. event_handler listener msg = Some (NL_OK, listener') \<and>
          \<not> partial_in_flight listener' \<and>
          (\<not> partial_in_flight listener \<longrightarrow> handled listener' = handled listener)))"
proof -
  have inv: "action (current_event listener) = ACT_INVALID \<longleftrightarrow> \<not> partial_in_flight listener"
    by (simp add: current_event_def partial_in_flight_def file_event_new_def
        split: option.split)
  show ?thesis
    using inv small_action_valid [of act]
    by (auto simp add: event_handler_def Let_def partial_in_flight_def)
qed

theorem partial_event_slot_witness:
  "unat (ACT_NEW_FILE :: 8 word) < 31 \<and>
   act_bit ACT_NEW_FILE AND event_mask (half_built_listener 1) \<noteq> 0 \<and>
   partial_in_flight (half_built_listener 1) \<and>
   event_handler (half_built_listener 1) (notify_msg ACT_NEW_FILE 9 ''/tmp/c'') =
     Some (NL_OK,
           (half_built_listener 1)
             \<lparr>event := Some (file_event_new\<lparr>action := ACT_NEW_FILE, cookie := 9, major := 8,
                                            minor := 1, event_path := ''/tmp/c''\<rparr>)\<rparr>) \<and>
   \<not> partial_in_flight event_listener_new \<and>
   (\<exists>listener'.
      event_handler event_listener_new (process_info_msg 1000 42 ''/usr/bin/touch'') =
        Some (NL_OK, listener') \<and>
      \<not> partial_in_flight listener' \<and> handled listener' = handled event_listener_new)"
proof -
  have a: "unat (ACT_NEW_FILE :: 8 word) < 31" by (simp add: ACT_defs)
  have b: "act_bit ACT_NEW_FILE AND event_mask (half_built_listener 1) \<noteq> 0"
    by (simp add: act_bit_def ACT_defs frame_defs)
  have c: "partial_in_flight (half_built_listener 1)"
    by (simp add: frame_defs listener_defs ACT_defs)
  have d: "\<not> partial_in_flight event_listener_new"
    by (simp add: frame_defs listener_defs)
  have n: "event_handler (half_built_listener 1) (notify_msg ACT_NEW_FILE 9 ''/tmp/c'') =
     Some (NL_OK,
           (half_built_listener 1)
             \<lparr>event := Some (file_event_new\<lparr>action := ACT_NEW_FILE, cookie := 9, major := 8,
                                            minor := 1, event_path := ''/tmp/c''\<rparr>)\<rparr>)"
    using partial_event_slot [of "notify_msg ACT_NEW_FILE 9 ''/tmp/c''" ACT_NEW_FILE 9 8 1
        "''/tmp/c''" "half_built_listener 1"] a b
    by (auto simp add: notify_msg_def listener_defs half_built_listener_def)
  have p: "\<exists>listener'.
      event_handler event_listener_new (process_info_msg 1000 42 ''/usr/bin/touch'') =
        Some (NL_OK, listener') \<and>
      \<not> partial_in_flight listener' \<and> handled listener' = handled event_listener_new"
    using partial_event_slot [of "process_info_msg 1000 42 ''/usr/bin/touch''" _ _ _ _
        "''/usr/bin/touch''" event_listener_new 1000 42] d
    by (simp add: process_info_msg_def)
  show ?thesis using a b c d n p by blast
qed

text \<open>
  The claim C6 as stated fails for a second NOTIFY whose action is masked out: with
  only new-file in the mask, the half-built event of \<^verbatim>\<open>/tmp/a\<close> is neither dropped nor
  replaced when the NOTIFY of a deletion of \<^verbatim>\<open>/tmp/b\<close> arrives, and the process
  information that follows completes the old event.
\<close>

theorem masked_notify_keeps_partial:
  "event_handler (half_built_listener 1) (notify_msg ACT_DEL_FILE 2 ''/tmp/b'') =
     Some (NL_OK, half_built_listener 1) \<and>
   partial_in_flight (half_built_listener 1) \<and>
   map_option event_path (event (half_built_listener 1)) = Some ''/tmp/a'' \<and>
   event_handler (half_built_listener 1) (process_info_msg 0 77 ''/bin/rm'') =
     Some (NL_OK,
           (half_built_listener 1)
             \<lparr>handled := [touch_event\<lparr>uid := 0, pid := 77, process_path := ''/bin/rm''\<rparr>],
              event := None\<rparr>)"
  by (simp add: frame_defs listener_defs touch_event_def act_bit_def ACT_defs)

section \<open>Properties of the rotating log sink\<close>

subsection \<open>The names of the archives\<close>

lemma digit_value_nth: "k < 10 \<Longrightarrow> digit_value (''0123456789'' ! k) = k"
proof -
  assume "k < 10"
  then consider "k = 0" | "k = 1" | "k = 2" | "k = 3" | "k = 4" | "k = 5" | "k = 6"
    | "k = 7" | "k = 8" | "k = 9"
    by atomize_elim arith
  then show ?thesis by cases (simp_all add: digit_value_def)
qed

lemma decimal_value_dec: "decimal_value (dec n) = n"
proof (induction n rule: dec.induct)
  case (1 n)
  show ?case
  proof (cases "n < 10")
    case True
    then show ?thesis
      using digit_value_nth [of n] by (subst dec.simps) (simp add: decimal_value_def)
  next
    case False
    then have "decimal_value (dec (n div 10)) = n div 10" using 1 by simp
    then show ?thesis
      using False digit_value_nth [of "n mod 10"]
      by (subst dec.simps) (simp add: decimal_value_def)
  qed
qed

lemma dec_inject: "dec a = dec b \<Longrightarrow> a = b"
  by (metis decimal_value_dec)

lemma dec_not_empty: "dec n \<noteq> []"
  by (subst dec.simps) simp

lemma archive_path_inject: "archive_path base i = archive_path base j \<Longrightarrow> i = j"
  by (simp add: archive_path_def dec_inject)

lemma archive_path_not_plain: "base @ ''.'' @ printf_d 0 \<noteq> archive_path base i"
proof
  assume "base @ ''.'' @ printf_d 0 = archive_path base i"
  then have "printf_d 0 = dec i @ ''.gz''" by (simp add: archive_path_def)
  then have "length (dec i @ ''.gz'') = 1" by (simp add: printf_d_def dec_0)
  then show False by simp
qed

subsection \<open>The record of calls\<close>

lemma sys_call_result:
  "sys_call name args possible w = (ok, w') \<Longrightarrow>
     trace w' = trace w @ [Call name args ok] \<and> files w' = files w \<and>
     faults w' = faults w \<and> calls w' = Suc (calls w) \<and> gzip w' = gzip w \<and>
     (ok \<longleftrightarrow> possible \<and> \<not> faults w (calls w))"
  by (auto simp add: sys_call_def Let_def)

lemma g_unlink_result:
  "g_unlink path w = (ok, w') \<Longrightarrow>
     trace w' = trace w @ [Call ''g_unlink'' [path] ok] \<and>
     files w' = (if ok then (files w)(path := None) else files w) \<and>
     faults w' = faults w \<and> calls w' = Suc (calls w) \<and>
     (ok \<longleftrightarrow> files w path \<noteq> None \<and> \<not> faults w (calls w))"
  by (auto simp add: g_unlink_def sys_call_def Let_def split: if_splits)

lemma g_rename_result:
  "g_rename src dest w = (ok, w') \<Longrightarrow>
     trace w' = trace w @ [Call ''g_rename'' [src, dest] ok] \<and>
     (ok \<longleftrightarrow> files w src \<noteq> None \<and> \<not> faults w (calls w))"
  by (auto simp add: g_rename_def sys_call_def Let_def split: if_splits)

lemma runs_refl: "runs oldest w True w"
  by (simp add: runs_def)

lemma aborted_prepend:
  "\<not> list_ex (listed_failure oldest) seg1 \<Longrightarrow> aborted oldest seg2 \<Longrightarrow>
   aborted oldest (seg1 @ seg2)"
proof -
  assume c: "\<not> list_ex (listed_failure oldest) seg1" and a: "aborted oldest seg2"
  from a obtain before failure msg rest where
    s: "seg2 = before @ failure # Warning msg # rest"
    and b: "\<not> list_ex (listed_failure oldest) before"
    and r: "listed_failure oldest failure" "list_all winds_up rest"
    unfolding aborted_def by blast
  have "seg1 @ seg2 = (seg1 @ before) @ failure # Warning msg # rest" using s by simp
  moreover have "\<not> list_ex (listed_failure oldest) (seg1 @ before)" using c b by simp
  ultimately show ?thesis unfolding aborted_def using r by blast
qed

lemma aborted_append:
  "aborted oldest seg \<Longrightarrow> winds_up d \<Longrightarrow> aborted oldest (seg @ [d])"
proof -
  assume a: "aborted oldest seg" and d: "winds_up d"
  from a obtain before failure msg rest where
    s: "seg = before @ failure # Warning msg # rest"
    and b: "\<not> list_ex (listed_failure oldest) before"
    and r: "listed_failure oldest failure" "list_all winds_up rest"
    unfolding aborted_def by blast
  have "seg @ [d] = before @ failure # Warning msg # (rest @ [d])" using s by simp
  moreover have "list_all winds_up (rest @ [d])"
    using r d by simp
  ultimately show ?thesis unfolding aborted_def using b r(1) by blast
qed

lemma winds_up_not_listed: "winds_up d \<Longrightarrow> \<not> listed_failure oldest d"
  by (cases d) (auto simp add: winds_up_def listed_failure_def)

lemma runs_trans:
  "runs oldest w True w1 \<Longrightarrow> runs oldest w1 ok w2 \<Longrightarrow> runs oldest w ok w2"
proof -
  assume a: "runs oldest w True w1" and b: "runs oldest w1 ok w2"
  from a obtain seg1 where s1: "trace w1 = trace w @ seg1"
    and c1: "\<not> list_ex (listed_failure oldest) seg1"
    by (auto simp add: runs_def)
  from b obtain seg2 where s2: "trace w2 = trace w1 @ seg2"
    and c2: "if ok then \<not> list_ex (listed_failure oldest) seg2 else aborted oldest seg2"
    unfolding runs_def by blast
  have t: "trace w2 = trace w @ (seg1 @ seg2)" using s1 s2 by simp
  show ?thesis
  proof (cases ok)
    case True
    then have "\<not> list_ex (listed_failure oldest) (seg1 @ seg2)" using c1 c2 by simp
    then show ?thesis unfolding runs_def using t True by auto
  next
    case False
    then have "aborted oldest (seg1 @ seg2)" using c1 c2 aborted_prepend by simp
    then show ?thesis unfolding runs_def using t False by auto
  qed
qed

lemma runs_entry:
  "trace w' = trace w @ [e] \<Longrightarrow> \<not> listed_failure oldest e \<Longrightarrow> runs oldest w True w'"
  by (simp add: runs_def)

lemma runs_abort:
  "trace w' = trace w @ [failure, Warning msg] \<Longrightarrow> listed_failure oldest failure \<Longrightarrow>
   runs oldest w False w'"
proof -
  assume t: "trace w' = trace w @ [failure, Warning msg]" and f: "listed_failure oldest failure"
  have "[failure, Warning msg] = [] @ failure # Warning msg # []" by simp
  then have "aborted oldest [failure, Warning msg]"
    unfolding aborted_def using f
    by (intro exI [of _ "[]"] exI [of _ failure] exI [of _ msg] exI [of _ "[]"]) simp
  then show ?thesis unfolding runs_def using t by auto
qed

lemma runs_winds_up:
  "runs oldest w ok w1 \<Longrightarrow> trace w2 = trace w1 @ [d] \<Longrightarrow> winds_up d \<Longrightarrow>
   runs oldest w ok w2"
proof -
  assume a: "runs oldest w ok w1" and t: "trace w2 = trace w1 @ [d]" and d: "winds_up d"
  from a obtain seg where s: "trace w1 = trace w @ seg"
    and c: "if ok then \<not> list_ex (listed_failure oldest) seg else aborted oldest seg"
    unfolding runs_def by blast
  have nl: "\<not> listed_failure oldest d"
    using d by (rule winds_up_not_listed)
  have t2: "trace w2 = trace w @ (seg @ [d])" using s t by simp
  show ?thesis
  proof (cases ok)
    case True
    then have "\<not> list_ex (listed_failure oldest) (seg @ [d])" using c nl by simp
    then show ?thesis unfolding runs_def using t2 True by auto
  next
    case False
    then have "aborted oldest (seg @ [d])" using c d aborted_append by simp
    then show ?thesis unfolding runs_def using t2 False by auto
  qed
qed

lemma runs_warning:
  "runs oldest w ok w1 \<Longrightarrow> runs oldest w ok (g_warning msg w1)"
  by (rule runs_winds_up [where d = "Warning msg"]) (simp_all add: g_warning_def winds_up_def)

lemma runs_critical:
  "runs oldest w ok w1 \<Longrightarrow> runs oldest w ok (g_critical msg w1)"
  by (rule runs_winds_up [where d = "Critical msg"]) (simp_all add: g_critical_def winds_up_def)

lemma runs_same_trace:
  "runs oldest w ok w1 \<Longrightarrow> trace w2 = trace w1 \<Longrightarrow> runs oldest w ok w2"
  by (simp add: runs_def)

text \<open>The two calls that give up a compressed file.\<close>

lemma runs_close:
  "runs oldest w ok w1 \<Longrightarrow> g_output_stream_close stream w1 = (closed, w2) \<Longrightarrow>
   runs oldest w ok w2"
  by (rule runs_winds_up [where d = "Call ''g_output_stream_close'' [stream] closed"])
     (auto simp add: g_output_stream_close_def sys_call_def Let_def winds_up_def)

lemma runs_file_delete:
  "runs oldest w ok w1 \<Longrightarrow> g_file_delete path w1 = (deleted, w2) \<Longrightarrow>
   runs oldest w ok w2"
  by (rule runs_winds_up [where d = "Call ''g_file_delete'' [path] deleted"])
     (auto simp add: g_file_delete_def sys_call_def Let_def winds_up_def split: if_splits)

text \<open>A call that is listed: it runs clean when it succeeds and aborts with its warning.\<close>

lemma runs_listed_call:
  assumes "trace w' = trace w @ [Call name args ok]"
    and "listed_failure oldest (Call name args False)"
  shows "runs oldest w ok (if ok then w' else g_warning msg w')"
proof (cases ok)
  case True
  then show ?thesis
    using assms(1) by (simp add: runs_entry listed_failure_def)
next
  case False
  have "trace (g_warning msg w') = trace w @ [Call name args False, Warning msg]"
    using assms(1) False by (simp add: g_warning_def)
  then show ?thesis
    using False assms(2) runs_abort [of "g_warning msg w'" w "Call name args False" msg oldest]
    by simp
qed

text \<open>A call whose failure is not listed runs clean.\<close>

lemma runs_unlisted_call:
  assumes "trace w' = trace w @ [Call name args ok]"
    and "\<not> listed_failure oldest (Call name args False)"
  shows "runs oldest w True w'"
proof -
  have "\<not> listed_failure oldest (Call name args ok)"
    using assms(2) by (cases ok) (simp_all add: listed_failure_def)
  then show ?thesis using assms(1) by (rule runs_entry [rotated])
qed

subsection \<open>The steps of a rotation in the record of calls\<close>

lemma unlink_listed: "listed_failure oldest (Call ''g_unlink'' [path] False) \<longleftrightarrow> path = oldest"
  by (simp add: listed_failure_def)

lemma delete_left_behind_runs:
  "(\<And>i. n \<le> i \<Longrightarrow> i < 100 \<Longrightarrow> archive_path base i \<noteq> oldest) \<Longrightarrow>
   runs oldest w True (delete_left_behind base n w)"
proof (induction "100 - n" arbitrary: n w)
  case 0
  then have "delete_left_behind base n w = w"
    by (subst delete_left_behind.simps) simp
  then show ?case by (simp add: runs_refl)
next
  case (Suc k)
  let ?path = "archive_path base n"
  have n: "n < 100" using Suc.hyps(2) by simp
  show ?case
  proof (cases "g_file_test ?path w")
    case False
    then have "delete_left_behind base n w = w"
      by (subst delete_left_behind.simps) (simp add: Let_def)
    then show ?thesis by (simp add: runs_refl)
  next
    case True
    obtain removed w1 where u: "g_unlink ?path w = (removed, w1)"
      by (cases "g_unlink ?path w")
    let ?w2 = "if \<not> removed then g_warning (''Failed to delete old log file: '' @ ?path) w1 else w1"
    have ne: "?path \<noteq> oldest" using Suc.prems [of n] n by simp
    have "runs oldest w True w1"
      using g_unlink_result [OF u] ne
      by (intro runs_unlisted_call [where name = "''g_unlink''" and args = "[?path]" and ok = removed])
         (simp_all add: unlink_listed)
    then have r1: "runs oldest w True ?w2"
      by (simp add: runs_warning)
    have k: "k = 100 - Suc n" using Suc.hyps(2) by simp
    have p: "\<And>i. Suc n \<le> i \<Longrightarrow> i < 100 \<Longrightarrow> archive_path base i \<noteq> oldest"
      using Suc.prems by simp
    have r2: "runs oldest ?w2 True (delete_left_behind base (Suc n) ?w2)"
      using Suc.hyps(1) [OF k p] by simp
    have r3: "runs oldest w True (delete_left_behind base (Suc n) ?w2)"
      using runs_trans [OF r1 r2] .
    have "delete_left_behind base n w = delete_left_behind base (Suc n) ?w2"
      using True u n by (subst delete_left_behind.simps) (simp add: Let_def)
    then show ?thesis using r3 by simp
  qed
qed

lemma delete_oldest_runs:
  assumes "delete_oldest logger w = (ok, w')"
    and "oldest = archive_path (log_file_path logger) (unat (max_file_count logger - 1))"
  shows "runs oldest w ok w'"
proof (cases "g_file_test oldest w")
  case False
  then show ?thesis
    using assms by (auto simp add: delete_oldest_def Let_def runs_refl)
next
  case True
  obtain removed w1 where u: "g_unlink oldest w = (removed, w1)"
    by (cases "g_unlink oldest w")
  have r: "runs oldest w removed
      (if removed then w1
       else g_warning (''Failed to delete oldest compressed log file: '' @ oldest) w1)"
    using g_unlink_result [OF u]
    by (intro runs_listed_call [where name = "''g_unlink''" and args = "[oldest]"])
       (simp_all add: unlink_listed)
  have "ok = removed"
    "w' = (if removed then w1
           else g_warning (''Failed to delete oldest compressed log file: '' @ oldest) w1)"
    using assms True u by (auto simp add: delete_oldest_def Let_def split: if_splits)
  then show ?thesis using r by simp
qed

lemma rename_listed: "listed_failure oldest (Call ''g_rename'' args False)"
  by (simp add: listed_failure_def)

lemma rotate_intermediate_runs:
  "rotate_intermediate base n w = (ok, w') \<Longrightarrow> runs oldest w ok w'"
proof (induction n arbitrary: w)
  case 0
  then show ?case by (auto simp add: runs_refl)
next
  case (Suc i)
  let ?src = "archive_path base i"
  let ?dest = "archive_path base (i + 1)"
  show ?case
  proof (cases "g_file_test ?src w")
    case False
    then show ?thesis using Suc by (simp add: Let_def)
  next
    case True
    obtain renamed w1 where r: "g_rename ?src ?dest w = (renamed, w1)"
      by (cases "g_rename ?src ?dest w")
    let ?msg = "''Failed to rename log file: '' @ ?src @ '' to '' @ ?dest"
    have s: "runs oldest w renamed (if renamed then w1 else g_warning ?msg w1)"
      using g_rename_result [OF r]
      by (intro runs_listed_call [where name = "''g_rename''" and args = "[?src, ?dest]"])
         (simp_all add: rename_listed)
    show ?thesis
    proof (cases renamed)
      case False
      then have "ok = False" "w' = g_warning ?msg w1"
        using Suc.prems True r by (auto simp add: Let_def)
      then show ?thesis using s False by simp
    next
      case renamed: True
      then have "rotate_intermediate base i w1 = (ok, w')"
        using Suc.prems True r by (simp add: Let_def)
      then have b: "runs oldest w1 ok w'" by (rule Suc.IH)
      have a: "runs oldest w True w1" using s renamed by simp
      show ?thesis using runs_trans [OF a b] .
    qed
  qed
qed

lemma rotate_compressed_runs:
  assumes "rotate_compressed logger w = (ok, w')"
  shows "runs oldest w ok w'"
proof (cases "0 \<le> sint (ucast (max_file_count logger - 2) :: 32 word)")
  case True
  then have "rotate_intermediate (log_file_path logger)
      (Suc (nat (sint (ucast (max_file_count logger - 2) :: 32 word)))) w = (ok, w')"
    using assms by (simp add: rotate_compressed_def Let_def)
  then show ?thesis by (rule rotate_intermediate_runs)
next
  case False
  then show ?thesis
    using assms by (auto simp add: rotate_compressed_def Let_def runs_refl)
qed

lemma compress_file_runs:
  assumes c: "compress_file path w = (ok, w')" and ne: "path \<noteq> oldest"
  shows "runs oldest w ok w'"
proof -
  let ?gz = "path @ ''.gz''"
  obtain readable w1 where s1: "sys_call ''g_file_read'' [path] (files w path \<noteq> None) w = (readable, w1)"
    by (cases "sys_call ''g_file_read'' [path] (files w path \<noteq> None) w")
  let ?m1 = "''Failed to open source file for compression '' @ path"
  have r1: "runs oldest w readable (if readable then w1 else g_warning ?m1 w1)"
    using sys_call_result [OF s1]
    by (intro runs_listed_call [where name = "''g_file_read''" and args = "[path]"])
       (simp_all add: listed_failure_def)
  show ?thesis
  proof (cases readable)
    case False
    then have "ok = False \<and> w' = g_warning ?m1 w1"
      using c s1 by (auto simp add: compress_file_def Let_def)
    then show ?thesis using r1 False by simp
  next
    case readable: True
    have a1: "runs oldest w True w1" using r1 readable by simp
    obtain created w2 where s2: "sys_call ''g_file_replace'' [?gz] True w1 = (created, w2)"
      by (cases "sys_call ''g_file_replace'' [?gz] True w1")
    let ?m2 = "''Failed to create compressed file '' @ ?gz"
    have r2: "runs oldest w1 created (if created then w2 else g_warning ?m2 w2)"
      using sys_call_result [OF s2]
      by (intro runs_listed_call [where name = "''g_file_replace''" and args = "[?gz]"])
         (simp_all add: listed_failure_def)
    have r12: "runs oldest w created (if created then w2 else g_warning ?m2 w2)"
      using runs_trans [OF a1 r2] .
    show ?thesis
    proof (cases created)
      case False
      then have "ok = False \<and> w' = g_warning ?m2 w2"
        using c s1 s2 readable by (auto simp add: compress_file_def Let_def)
      then show ?thesis using r12 False by simp
    next
      case created: True
      have a2: "runs oldest w True w2" using r12 created by simp
      let ?content = "case files w2 path of None \<Rightarrow> [] | Some c \<Rightarrow> c"
      let ?archive = "gzip w2 ?content"
      obtain spliced w3 where
        s3: "sys_call ''g_output_stream_splice'' [?gz, path] True w2 = (spliced, w3)"
        by (cases "sys_call ''g_output_stream_splice'' [?gz, path] True w2")
      let ?m3 = "''Failed to compress file '' @ path"
      have r3: "runs oldest w2 spliced (if spliced then w3 else g_warning ?m3 w3)"
        using sys_call_result [OF s3]
        by (intro runs_listed_call
              [where name = "''g_output_stream_splice''" and args = "[?gz, path]"])
           (simp_all add: listed_failure_def)
      have r13: "runs oldest w spliced (if spliced then w3 else g_warning ?m3 w3)"
        using runs_trans [OF a2 r3] .
      show ?thesis
      proof (cases spliced)
        case False
        let ?w4 = "g_warning ?m3
                     (w3\<lparr>files := (files w3)(?gz \<mapsto> take (short_write w2 (calls w2)) ?archive)\<rparr>)"
        obtain closed w5 where s5: "g_output_stream_close ?gz ?w4 = (closed, w5)"
          by (cases "g_output_stream_close ?gz ?w4")
        obtain deleted w6 where s6: "g_file_delete ?gz w5 = (deleted, w6)"
          by (cases "g_file_delete ?gz w5")
        have e: "ok = False \<and> w' = w6"
          using c s1 s2 s3 s5 s6 readable created False
          by (simp add: compress_file_def Let_def)
        have "runs oldest w False (g_warning ?m3 w3)" using r13 False by simp
        then have "runs oldest w False ?w4"
          by (rule runs_same_trace) (simp add: g_warning_def)
        then have "runs oldest w False w5" using s5 by (rule runs_close)
        then have "runs oldest w False w6" using s6 by (rule runs_file_delete)
        then show ?thesis using e by simp
      next
        case spliced: True
        obtain closed w4 where s4: "g_output_stream_close ?gz w3 = (closed, w4)"
          by (cases "g_output_stream_close ?gz w3")
        let ?w5 = "w4\<lparr>files := (files w4)(?gz \<mapsto>
                       (if closed then ?archive
                        else take (short_write w3 (calls w3)) ?archive))\<rparr>"
        obtain removed w6 where u: "g_unlink path ?w5 = (removed, w6)"
          by (cases "g_unlink path ?w5")
        let ?m5 = "''Failed to delete original log file '' @ path"
        have "runs oldest w True w3" using r13 spliced by simp
        then have "runs oldest w True w4" using s4 by (rule runs_close)
        then have r5: "runs oldest w True ?w5"
          by (rule runs_same_trace) simp
        have r56: "runs oldest ?w5 True w6"
          using g_unlink_result [OF u] ne
          by (intro runs_unlisted_call
                [where name = "''g_unlink''" and args = "[path]" and ok = removed])
             (simp_all add: unlink_listed)
        have r6: "runs oldest w True w6" using runs_trans [OF r5 r56] .
        have "ok = True \<and> w' = (if removed then w6 else g_warning ?m5 w6)"
          using c s1 s2 s3 s4 u readable created spliced
          by (simp add: compress_file_def Let_def split: if_splits)
        then show ?thesis using r6 by (simp add: runs_warning)
      qed
    qed
  qed
qed

lemma rotate_current_runs:
  assumes c: "rotate_current logger w = (ok, w')"
    and o: "oldest = archive_path (log_file_path logger) k"
  shows "runs oldest w ok w'"
proof (cases "g_file_test (log_file_path logger) w")
  case False
  then show ?thesis using c by (auto simp add: rotate_current_def Let_def runs_refl)
next
  case True
  let ?path = "log_file_path logger"
  let ?dest = "?path @ ''.'' @ printf_d 0"
  obtain renamed w1 where r: "g_rename ?path ?dest w = (renamed, w1)"
    by (cases "g_rename ?path ?dest w")
  let ?m1 = "''Failed to rename current log file: '' @ ?path @ '' to '' @ ?dest"
  have r1: "runs oldest w renamed (if renamed then w1 else g_warning ?m1 w1)"
    using g_rename_result [OF r]
    by (intro runs_listed_call [where name = "''g_rename''" and args = "[?path, ?dest]"])
       (simp_all add: rename_listed)
  show ?thesis
  proof (cases renamed)
    case False
    then have "ok = False" "w' = g_warning ?m1 w1"
      using c True r by (auto simp add: rotate_current_def Let_def)
    then show ?thesis using r1 False by simp
  next
    case renamed: True
    obtain compressed w2 where z: "compress_file ?dest w1 = (compressed, w2)"
      by (cases "compress_file ?dest w1")
    have ne: "?dest \<noteq> oldest" using o archive_path_not_plain by blast
    have r2: "runs oldest w1 compressed w2" using z ne by (rule compress_file_runs)
    have a1: "runs oldest w True w1" using r1 renamed by simp
    have r12: "runs oldest w compressed w2" using runs_trans [OF a1 r2] .
    let ?m2 = "''Failed to compress log file: '' @ ?dest"
    have "ok = compressed" "w' = (if compressed then w2 else g_warning ?m2 w2)"
      using c True r z renamed by (auto simp add: rotate_current_def Let_def split: if_splits)
    then show ?thesis using r12 by (cases compressed) (simp_all add: runs_warning)
  qed
qed

lemma open_log_file_runs:
  assumes "open_log_file logger w = (ok, logger', w')"
  shows "runs oldest w ok w' \<and>
         out_stream logger' = (if ok then Some (log_file_path logger) else None)"
proof -
  let ?path = "log_file_path logger"
  obtain opened w1 where s1: "sys_call ''g_file_append_to'' [?path] True w = (opened, w1)"
    by (cases "sys_call ''g_file_append_to'' [?path] True w")
  let ?m1 = "''Failed to open log file: '' @ ?path"
  have r1: "runs oldest w opened (if opened then w1 else g_warning ?m1 w1)"
    using sys_call_result [OF s1]
    by (intro runs_listed_call [where name = "''g_file_append_to''" and args = "[?path]"])
       (simp_all add: listed_failure_def)
  show ?thesis
  proof (cases opened)
    case False
    then have "ok = False" "w' = g_warning ?m1 w1" "out_stream logger' = None"
      using assms s1 by (auto simp add: open_log_file_def Let_def)
    then show ?thesis using r1 False by simp
  next
    case opened: True
    let ?w2 = "case files w1 ?path of None \<Rightarrow> w1\<lparr>files := (files w1)(?path \<mapsto> [])\<rparr>
               | Some old \<Rightarrow> w1"
    have t2: "trace ?w2 = trace w1" by (simp split: option.split)
    obtain queried w3 where s2: "sys_call ''g_file_query_info'' [?path] True ?w2 = (queried, w3)"
      by (cases "sys_call ''g_file_query_info'' [?path] True ?w2")
    have "runs oldest w True w1" using r1 opened by simp
    then have r2: "runs oldest w True ?w2"
      using t2 by (rule runs_same_trace)
    have "runs oldest ?w2 True w3"
      using sys_call_result [OF s2]
      by (intro runs_unlisted_call
            [where name = "''g_file_query_info''" and args = "[?path]" and ok = queried])
         (simp_all add: listed_failure_def)
    then have r3: "runs oldest w True w3" using r2 runs_trans by blast
    let ?m2 = "''Failed to get file info: '' @ ?path"
    have "ok = True" "w' = (if queried then w3 else g_warning ?m2 w3)"
      "out_stream logger' = Some ?path"
      using assms s1 s2 opened by (auto simp add: open_log_file_def Let_def split: if_splits)
    then show ?thesis using r3 by (simp add: runs_warning)
  qed
qed

lemma oldest_not_left_behind:
  fixes n :: "64 word"
  assumes "unat n \<le> i" and "i < 100"
  shows "archive_path base i \<noteq> archive_path base (unat (n - 1))"
proof (cases "n = 0")
  case True
  then have "unat (n - 1) = 2 ^ 64 - 1" by (simp add: unsigned_minus_1_eq_mask mask_eq_exp_minus_1)
  then have "i \<noteq> unat (n - 1)" using assms(2) by simp
  then show ?thesis using archive_path_inject by blast
next
  case False
  then have "unat (n - 1) = unat n - 1" by (rule unat_minus_one)
  moreover have "0 < unat n" using False by (simp add: unat_gt_0)
  ultimately have "i \<noteq> unat (n - 1)" using assms(1) by simp
  then show ?thesis using archive_path_inject by blast
qed

lemma close_log_file_result:
  assumes "close_log_file logger w = (logger1, w0)"
  shows "log_file_path logger1 = log_file_path logger"
    and "max_file_count logger1 = max_file_count logger"
    and "out_stream logger1 = None"
    and "files w0 = files w" and "faults w0 = faults w"
    and "trace w0 = trace w @
           (case out_stream logger of
              None \<Rightarrow> []
            | Some stream \<Rightarrow>
                [Call ''g_output_stream_close'' [stream] (\<not> faults w (calls w))])"
    and "runs oldest w True w0"
proof -
  show "log_file_path logger1 = log_file_path logger"
    "max_file_count logger1 = max_file_count logger" "out_stream logger1 = None"
    "files w0 = files w" "faults w0 = faults w"
    and t: "trace w0 = trace w @
           (case out_stream logger of
              None \<Rightarrow> []
            | Some stream \<Rightarrow>
                [Call ''g_output_stream_close'' [stream] (\<not> faults w (calls w))])"
    using assms
    by (auto simp add: close_log_file_def g_output_stream_close_def sys_call_def Let_def
        split: option.splits)
  show "runs oldest w True w0"
  proof (cases "out_stream logger")
    case None
    then show ?thesis using t by (simp add: runs_def)
  next
    case (Some stream)
    then have "trace w0 = trace w @ [Call ''g_output_stream_close'' [stream] (\<not> faults w (calls w))]"
      using t by simp
    then show ?thesis
      by (rule runs_entry) (simp add: listed_failure_def)
  qed
qed

lemma rotate_logs_runs:
  assumes r: "rotate_logs logger w = (ok, logger', w')"
  shows "runs (oldest_archive logger)
           (delete_left_behind (log_file_path logger) (unat (max_file_count logger))
              (snd (close_log_file logger w))) ok w'
         \<and> runs (oldest_archive logger) w ok w'
         \<and> out_stream logger' = (if ok then Some (log_file_path logger) else None)"
proof -
  let ?o = "oldest_archive logger"
  obtain l w0 where cl: "close_log_file logger w = (l, w0)"
    by (cases "close_log_file logger w")
  let ?w1 = "delete_left_behind (log_file_path logger) (unat (max_file_count logger)) w0"
  have l: "log_file_path l = log_file_path logger" "max_file_count l = max_file_count logger"
    "out_stream l = None"
    using close_log_file_result [OF cl] by simp_all
  have rc: "runs ?o w True w0" using cl by (rule close_log_file_result)
  have o: "?o = archive_path (log_file_path l) (unat (max_file_count l - 1))"
    by (simp add: oldest_archive_def l)
  have o': "?o = archive_path (log_file_path l) (unat (max_file_count logger - 1))"
    by (simp add: oldest_archive_def l)
  have r0: "runs ?o w0 True ?w1"
    using oldest_not_left_behind [of "max_file_count logger" _ "log_file_path logger"]
    by (intro delete_left_behind_runs) (simp add: oldest_archive_def)
  obtain deleted w2 where s2: "delete_oldest l ?w1 = (deleted, w2)"
    by (cases "delete_oldest l ?w1")
  have r2: "runs ?o ?w1 deleted w2" using s2 o by (rule delete_oldest_runs)
  have goal: "runs ?o ?w1 ok w' \<and>
              out_stream logger' = (if ok then Some (log_file_path logger) else None)"
  proof (cases deleted)
    case False
    then have "ok = False \<and> logger' = l \<and> w' = w2"
      using r cl s2 by (auto simp add: rotate_logs_def Let_def l)
    then show ?thesis using r2 False l by simp
  next
    case deleted: True
    have a2: "runs ?o ?w1 True w2" using r2 deleted by simp
    obtain rotated w3 where s3: "rotate_compressed l w2 = (rotated, w3)"
      by (cases "rotate_compressed l w2")
    have r3: "runs ?o w2 rotated w3" using s3 by (rule rotate_compressed_runs)
    have r13: "runs ?o ?w1 rotated w3" using runs_trans [OF a2 r3] .
    show ?thesis
    proof (cases rotated)
      case False
      then have "ok = False \<and> logger' = l \<and> w' = w3"
        using r cl s2 s3 deleted by (auto simp add: rotate_logs_def Let_def l)
      then show ?thesis using r13 False l by simp
    next
      case rotated: True
      have a3: "runs ?o ?w1 True w3" using r13 rotated by simp
      obtain archived w4 where s4: "rotate_current l w3 = (archived, w4)"
        by (cases "rotate_current l w3")
      have r4: "runs ?o w3 archived w4" using s4 o' by (rule rotate_current_runs)
      have r14: "runs ?o ?w1 archived w4" using runs_trans [OF a3 r4] .
      show ?thesis
      proof (cases archived)
        case False
        then have "ok = False \<and> logger' = l \<and> w' = w4"
          using r cl s2 s3 s4 deleted rotated by (auto simp add: rotate_logs_def Let_def l)
        then show ?thesis using r14 False l by simp
      next
        case archived: True
        have a4: "runs ?o ?w1 True w4" using r14 archived by simp
        obtain opened logger2 w5 where s5: "open_log_file l w4 = (opened, logger2, w5)"
          by (cases "open_log_file l w4")
        have r5: "runs ?o w4 opened w5"
          and n5: "out_stream logger2 = (if opened then Some (log_file_path logger) else None)"
          using open_log_file_runs [OF s5, of ?o] by (simp_all add: l)
        have r15: "runs ?o ?w1 opened w5" using runs_trans [OF a4 r5] .
        let ?m = "''Failed to open new log file: '' @ log_file_path l"
        have e: "ok = opened \<and> logger' = logger2 \<and>
                 w' = (if opened then w5 else g_critical ?m w5)"
          using r cl s2 s3 s4 s5 deleted rotated archived
          by (auto simp add: rotate_logs_def Let_def l split: if_splits)
        have "runs ?o ?w1 opened (if opened then w5 else g_critical ?m w5)"
          using r15 by (cases opened) (simp_all add: runs_critical)
        then show ?thesis using e n5 by simp
      qed
    qed
  qed
  then have "runs ?o w ok w'" using runs_trans [OF rc] runs_trans [OF r0] by blast
  then show ?thesis using goal cl by simp
qed



lemmas sink_defs = rotate_logs_def close_log_file_def delete_left_behind.simps
  delete_oldest_def rotate_compressed_def rotate_current_def compress_file_def
  open_log_file_def g_unlink_def g_rename_def g_file_test_def sys_call_def g_warning_def
  g_output_stream_close_def g_file_delete_def
  g_critical_def archive_path_def printf_d_def dec_eval Let_def

lemmas sample_fs_defs = sample_fs_def sample_sink_def





text \<open>
  The close of the compressed stream can fail as well, after a splice that succeeded.
  The code does not look at its result: on the sample directory the rotation goes on,
  the archive holds only what had been written, and the original is removed.
\<close>

lemma failed_close_of_archive:
  "rotate_logs sample_sink (sample_fs\<lparr>faults := (\<lambda>k. k = 6), short_write := (\<lambda>k. 2)\<rparr>) =
     (True, sample_sink\<lparr>out_stream := Some ''/log/e.csv'', current_file_size := 0\<rparr>,
      sample_fs
        \<lparr>files := [''/log/e.csv'' \<mapsto> [], ''/log/e.csv.0.gz'' \<mapsto> ''gz'',
                   ''/log/e.csv.5.gz'' \<mapsto> ''old5''],
         faults := (\<lambda>k. k = 6), short_write := (\<lambda>k. 2),
         calls := 10,
         trace :=
           [Call ''g_output_stream_close'' [''/log/e.csv''] True,
            Call ''g_unlink'' [''/log/e.csv.3.gz''] True,
            Call ''g_rename'' [''/log/e.csv'', ''/log/e.csv.0''] True,
            Call ''g_file_read'' [''/log/e.csv.0''] True,
            Call ''g_file_replace'' [''/log/e.csv.0.gz''] True,
            Call ''g_output_stream_splice'' [''/log/e.csv.0.gz'', ''/log/e.csv.0''] True,
            Call ''g_output_stream_close'' [''/log/e.csv.0.gz''] False,
            Call ''g_unlink'' [''/log/e.csv.0''] True,
            Call ''g_file_append_to'' [''/log/e.csv''] True,
            Call ''g_file_query_info'' [''/log/e.csv''] True]\<rparr>)"
  by (simp add: sink_defs sample_fs_defs fun_upd_twist)

subsection \<open>The files left behind\<close>

lemma upt_map_Cons: "n < g \<Longrightarrow> map f [n..<g] = f n # map f [Suc n..<g]"
  by (simp add: upt_conv_Cons)

lemma delete_left_behind_exact:
  assumes nofault: "\<forall>k. \<not> faults w k"
    and run: "list_all (\<lambda>i. g_file_test (archive_path base i) w) [n..<g]"
    and gap: "g = 100 \<or> \<not> g_file_test (archive_path base g) w"
    and ng: "n \<le> g" "g \<le> 100"
  shows "files (delete_left_behind base n w) =
           (\<lambda>p. if list_ex (\<lambda>i. p = archive_path base i) [n..<g] then None else files w p)
         \<and> trace (delete_left_behind base n w) =
             trace w @ map (\<lambda>i. Call ''g_unlink'' [archive_path base i] True) [n..<g]"
  using nofault run gap ng
proof (induction "g - n" arbitrary: n w)
  case 0
  then have gn: "g = n" by simp
  have "delete_left_behind base n w = w"
    using "0.prems"(3) gn
    by (subst delete_left_behind.simps) (auto simp add: Let_def)
  then show ?case using gn by simp
next
  case (Suc k)
  let ?path = "archive_path base n"
  have lt: "n < g" using Suc.hyps(2) by simp
  then have n: "n < 100" using Suc.prems(5) by simp
  have ex: "g_file_test ?path w"
    using Suc.prems(2) lt by (simp add: upt_conv_Cons)
  obtain removed w1 where u: "g_unlink ?path w = (removed, w1)"
    by (cases "g_unlink ?path w")
  have u': "removed" "trace w1 = trace w @ [Call ''g_unlink'' [?path] True]"
    "files w1 = (files w)(?path := None)" "faults w1 = faults w"
    using g_unlink_result [OF u] ex Suc.prems(1) by (auto simp add: g_file_test_def)
  have step: "delete_left_behind base n w = delete_left_behind base (Suc n) w1"
    using n ex u u'(1) by (subst delete_left_behind.simps) (simp add: Let_def)
  have other: "\<And>i. i \<noteq> n \<Longrightarrow> g_file_test (archive_path base i) w1 =
                 g_file_test (archive_path base i) w"
    using archive_path_inject [of base] u'(3) by (auto simp add: g_file_test_def)
  have p1: "\<forall>k. \<not> faults w1 k" using Suc.prems(1) u'(4) by simp
  have p2: "list_all (\<lambda>i. g_file_test (archive_path base i) w1) [Suc n..<g]"
    using Suc.prems(2) lt other by (simp add: upt_conv_Cons list_all_iff)
  have p3: "g = 100 \<or> \<not> g_file_test (archive_path base g) w1"
    using Suc.prems(3) lt other [of g] by auto
  have p4: "Suc n \<le> g" using lt by simp
  have k: "k = g - Suc n" using Suc.hyps(2) by simp
  have ih: "files (delete_left_behind base (Suc n) w1) =
         (\<lambda>p. if list_ex (\<lambda>i. p = archive_path base i) [Suc n..<g] then None
               else files w1 p)"
    "trace (delete_left_behind base (Suc n) w1) =
           trace w1 @ map (\<lambda>i. Call ''g_unlink'' [archive_path base i] True) [Suc n..<g]"
    using Suc.hyps(1) [OF k p1 p2 p3 p4 Suc.prems(5)] by simp_all
  have f: "files (delete_left_behind base n w) =
         (\<lambda>p. if list_ex (\<lambda>i. p = archive_path base i) [n..<g] then None else files w p)"
    using ih(1) u'(3) lt by (auto simp add: step upt_conv_Cons fun_eq_iff)
  have t: "trace (delete_left_behind base n w) =
           trace w @ map (\<lambda>i. Call ''g_unlink'' [archive_path base i] True) [n..<g]"
    using ih(2) u'(2) lt by (simp add: step upt_conv_Cons)
  show ?case using f t by simp
qed

text \<open>
  C8. During a rotation the files left behind are removed first: the record of the
  calls of the rotation starts with the close of the stream of the sink, followed by
  the calls of \<open>delete_left_behind\<close>. Where no call fails, that loop removes the archives
  of the indices from \<open>n\<close>, the bound of the sink, up to (not including) the first index
  \<open>g\<close> that has no archive or is 100, and no other file: an archive above such a gap
  stays.
\<close>

theorem left_behind_removed_up_to_gap:
  assumes nofault: "\<forall>k. \<not> faults w k"
    and run: "list_all (\<lambda>i. g_file_test (archive_path base i) w) [n..<g]"
    and gap: "g = 100 \<or> \<not> g_file_test (archive_path base g) w"
    and ng: "n \<le> g" "g \<le> 100"
  shows "files (delete_left_behind base n w) =
           (\<lambda>p. if list_ex (\<lambda>i. p = archive_path base i) [n..<g] then None else files w p)
         \<and> trace (delete_left_behind base n w) =
             trace w @ map (\<lambda>i. Call ''g_unlink'' [archive_path base i] True) [n..<g]
         \<and> (base = log_file_path logger \<and> n = unat (max_file_count logger) \<longrightarrow>
              (\<exists>rest. trace (snd (snd (rotate_logs logger w))) =
                        trace w @
                        (case out_stream logger of
                           None \<Rightarrow> []
                         | Some stream \<Rightarrow> [Call ''g_output_stream_close'' [stream] True]) @
                        map (\<lambda>i. Call ''g_unlink'' [archive_path base i] True) [n..<g] @
                        rest))"
proof -
  have main: "files (delete_left_behind base n w) =
           (\<lambda>p. if list_ex (\<lambda>i. p = archive_path base i) [n..<g] then None else files w p)
         \<and> trace (delete_left_behind base n w) =
             trace w @ map (\<lambda>i. Call ''g_unlink'' [archive_path base i] True) [n..<g]"
    using nofault run gap ng by (rule delete_left_behind_exact)
  have pos: "base = log_file_path logger \<and> n = unat (max_file_count logger) \<longrightarrow>
              (\<exists>rest. trace (snd (snd (rotate_logs logger w))) =
                        trace w @
                        (case out_stream logger of
                           None \<Rightarrow> []
                         | Some stream \<Rightarrow> [Call ''g_output_stream_close'' [stream] True]) @
                        map (\<lambda>i. Call ''g_unlink'' [archive_path base i] True) [n..<g] @
                        rest)"
  proof
    assume b: "base = log_file_path logger \<and> n = unat (max_file_count logger)"
    let ?r = "rotate_logs logger w"
    let ?closing = "case out_stream logger of
                      None \<Rightarrow> []
                    | Some stream \<Rightarrow> [Call ''g_output_stream_close'' [stream] True]"
    obtain l w0 where cl: "close_log_file logger w = (l, w0)"
      by (cases "close_log_file logger w")
    have c: "files w0 = files w" "faults w0 = faults w" "trace w0 = trace w @ ?closing"
      using close_log_file_result [OF cl] nofault by (simp_all split: option.split)
    have h1: "\<forall>k. \<not> faults w0 k" using nofault c(2) by simp
    have h2: "list_all (\<lambda>i. g_file_test (archive_path base i) w0) [n..<g]"
      using run c(1) by (simp add: g_file_test_def)
    have h3: "g = 100 \<or> \<not> g_file_test (archive_path base g) w0"
      using gap c(1) by (simp add: g_file_test_def)
    have t0: "trace (delete_left_behind base n w0) =
                trace w0 @ map (\<lambda>i. Call ''g_unlink'' [archive_path base i] True) [n..<g]"
      using delete_left_behind_exact [OF h1 h2 h3 ng] by simp
    have e: "?r = (fst ?r, fst (snd ?r), snd (snd ?r))" by simp
    have "runs (oldest_archive logger) (delete_left_behind base n w0) (fst ?r) (snd (snd ?r))"
      using rotate_logs_runs [OF e] b cl by simp
    then obtain rest where
      "trace (snd (snd ?r)) = trace (delete_left_behind base n w0) @ rest"
      unfolding runs_def by blast
    then have "trace (snd (snd ?r)) =
        trace w @ ?closing @
        map (\<lambda>i. Call ''g_unlink'' [archive_path base i] True) [n..<g] @ rest"
      using t0 c(3) by simp
    then show "\<exists>rest. trace (snd (snd ?r)) =
        trace w @ ?closing @
        map (\<lambda>i. Call ''g_unlink'' [archive_path base i] True) [n..<g] @ rest"
      by blast
  qed
  show ?thesis using main pos by simp
qed

theorem left_behind_removed_up_to_gap_witness:
  "g_file_test (archive_path ''/log/e.csv'' 3) sample_fs \<and>
   \<not> g_file_test (archive_path ''/log/e.csv'' 4) sample_fs \<and>
   files (delete_left_behind ''/log/e.csv'' 3 sample_fs) =
     [''/log/e.csv'' \<mapsto> ''line'', ''/log/e.csv.5.gz'' \<mapsto> ''old5''] \<and>
   trace (delete_left_behind ''/log/e.csv'' 3 sample_fs) =
     [Call ''g_unlink'' [''/log/e.csv.3.gz''] True]"
proof -
  let ?b = "''/log/e.csv''"
  have h1: "\<forall>k. \<not> faults sample_fs k" by (simp add: sample_fs_def)
  have a3: "g_file_test (archive_path ?b 3) sample_fs"
    by (simp add: g_file_test_def archive_path_def dec_eval sample_fs_def)
  have a4: "\<not> g_file_test (archive_path ?b 4) sample_fs"
    by (simp add: g_file_test_def archive_path_def dec_eval sample_fs_def)
  have h2: "list_all (\<lambda>i. g_file_test (archive_path ?b i) sample_fs) [3..<4]"
    using a3 by (simp add: upt_conv_Cons)
  have h3: "(4::nat) = 100 \<or> \<not> g_file_test (archive_path ?b 4) sample_fs"
    using a4 by simp
  have u: "[3..<4] = [3::nat]" by (simp add: upt_conv_Cons)
  from left_behind_removed_up_to_gap [OF h1 h2 h3, of sample_sink] u
  have "files (delete_left_behind ?b 3 sample_fs) =
           (\<lambda>p. if p = archive_path ?b 3 then None else files sample_fs p)"
    and "trace (delete_left_behind ?b 3 sample_fs) =
           trace sample_fs @ [Call ''g_unlink'' [archive_path ?b 3] True]"
    by simp_all
  then have "files (delete_left_behind ?b 3 sample_fs) =
     [''/log/e.csv'' \<mapsto> ''line'', ''/log/e.csv.5.gz'' \<mapsto> ''old5'']"
    and "trace (delete_left_behind ?b 3 sample_fs) =
     [Call ''g_unlink'' [''/log/e.csv.3.gz''] True]"
    by (auto simp add: archive_path_def dec_eval sample_fs_def fun_eq_iff)
  then show ?thesis using a3 a4 by simp
qed

text \<open>
  The claim C8 as stated fails on the sample directory, for a sink that keeps three
  archives: the rotation succeeds, the archive of index 5 is still there after it, and
  the removal of the archive of index 3 is the first call of the rotation after the
  close of the stream, before the log file is renamed, compressed and reopened.
\<close>

theorem left_behind_not_last_not_all:
  "rotate_logs sample_sink sample_fs =
     (True, sample_sink\<lparr>out_stream := Some ''/log/e.csv'', current_file_size := 0\<rparr>,
      sample_fs
        \<lparr>files := [''/log/e.csv'' \<mapsto> [], ''/log/e.csv.0.gz'' \<mapsto> ''gz:line'',
                   ''/log/e.csv.5.gz'' \<mapsto> ''old5''],
         calls := 10,
         trace :=
           [Call ''g_output_stream_close'' [''/log/e.csv''] True,
            Call ''g_unlink'' [''/log/e.csv.3.gz''] True,
            Call ''g_rename'' [''/log/e.csv'', ''/log/e.csv.0''] True,
            Call ''g_file_read'' [''/log/e.csv.0''] True,
            Call ''g_file_replace'' [''/log/e.csv.0.gz''] True,
            Call ''g_output_stream_splice'' [''/log/e.csv.0.gz'', ''/log/e.csv.0''] True,
            Call ''g_output_stream_close'' [''/log/e.csv.0.gz''] True,
            Call ''g_unlink'' [''/log/e.csv.0''] True,
            Call ''g_file_append_to'' [''/log/e.csv''] True,
            Call ''g_file_query_info'' [''/log/e.csv''] True]\<rparr>)"
  by (simp add: sink_defs sample_fs_defs fun_upd_twist)

section \<open>Properties of the mount tracker\<close>

lemma smaller_not_in_sorted:
  fixes x :: string
  assumes "x < y" and "sorted (y # ys)"
  shows "x \<notin># mset (y # ys)"
proof
  assume "x \<in># mset (y # ys)"
  then have "x \<in> set (y # ys)" by simp
  then have "y \<le> x" using assms(2) by auto
  then show False using assms(1) by simp
qed

lemma diff_loop_mset:
  "sorted list1 \<Longrightarrow> sorted list2 \<Longrightarrow> diff_loop list1 list2 added removed = (added', removed') \<Longrightarrow>
   mset added' = mset added + (mset list2 - mset list1) \<and>
   mset removed' = mset removed + (mset list1 - mset list2)"
proof (induction list1 list2 added removed rule: diff_loop.induct)
  case (1 added removed)
  then show ?case by simp
next
  case (2 x list1 added removed)
  then show ?case by simp
next
  case (3 y list2 added removed)
  then show ?case by simp
next
  case (4 x list1 y list2 added removed)
  show ?case
  proof (cases "x < y")
    case True
    have n: "x \<notin># mset (y # list2)"
      using True "4.prems"(2) by (rule smaller_not_in_sorted)
    have d: "diff_loop list1 (y # list2) added (x # removed) = (added', removed')"
      using "4.prems"(3) True by simp
    have s: "sorted list1" using "4.prems"(1) by simp
    have ih: "mset added' = mset added + (mset (y # list2) - mset list1)"
      "mset removed' = mset (x # removed) + (mset list1 - mset (y # list2))"
      using "4.IH"(1) [OF True s "4.prems"(2) d] by simp_all
    have a: "mset (y # list2) - mset (x # list1) = mset (y # list2) - mset list1"
    proof -
      have "x \<notin># mset (y # list2) - mset list1" using n by (meson in_diffD)
      then have "mset (y # list2) - mset list1 - {#x#} = mset (y # list2) - mset list1"
        by (rule diff_single_trivial)
      then show ?thesis by simp
    qed
    have r: "mset (x # list1) - mset (y # list2) = add_mset x (mset list1 - mset (y # list2))"
      using n by simp
    show ?thesis using ih a r by simp
  next
    case False
    note nlt = this
    show ?thesis
    proof (cases "y < x")
      case True
      have n: "y \<notin># mset (x # list1)"
        using True "4.prems"(1) by (rule smaller_not_in_sorted)
      have d: "diff_loop (x # list1) list2 (y # added) removed = (added', removed')"
        using "4.prems"(3) nlt True by simp
      have s: "sorted list2" using "4.prems"(2) by simp
      have ih: "mset added' = mset (y # added) + (mset list2 - mset (x # list1))"
        "mset removed' = mset removed + (mset (x # list1) - mset list2)"
        using "4.IH"(2) [OF nlt True "4.prems"(1) s d] by simp_all
      have r: "mset (x # list1) - mset (y # list2) = mset (x # list1) - mset list2"
      proof -
        have "y \<notin># mset (x # list1) - mset list2" using n by (meson in_diffD)
        then have "mset (x # list1) - mset list2 - {#y#} = mset (x # list1) - mset list2"
          by (rule diff_single_trivial)
        then show ?thesis by simp
      qed
      have a: "mset (y # list2) - mset (x # list1) = add_mset y (mset list2 - mset (x # list1))"
        using n by simp
      show ?thesis using ih a r by simp
    next
      case False
      then have eq: "x = y" using nlt by simp
      have d: "diff_loop list1 list2 added removed = (added', removed')"
        using "4.prems"(3) eq by simp
      have s: "sorted list1" "sorted list2" using "4.prems"(1,2) by simp_all
      have "mset added' = mset added + (mset list2 - mset list1) \<and>
            mset removed' = mset removed + (mset list1 - mset list2)"
        using "4.IH"(3) [OF nlt False s d] .
      then show ?thesis using eq by simp
    qed
  qed
qed

lemma write_ops_writes:
  "map fst (writes (write_ops op devices c)) =
     map fst (writes c) @ map (snprintf_op op) devices"
  by (induction devices arbitrary: c) (simp_all add: write_vfs_unnamed_device_def)

lemma distinct_diff_mset:
  assumes "distinct xs" and "mset zs = mset xs - mset ys"
  shows "set zs = set xs - set ys \<and> distinct zs"
proof -
  have c: "count (mset zs) a = count (mset xs) a - count (mset ys) a" for a
    using assms(2) by simp
  have x: "count (mset xs) a = (if a \<in> set xs then 1 else 0)" for a
    using assms(1) distinct_count_atmost_1 [of xs] by blast
  have zy: "count (mset ys) a = 0 \<longleftrightarrow> a \<notin> set ys" for a
    by (rule count_mset_0_iff)
  have zz: "count (mset zs) a = 0 \<longleftrightarrow> a \<notin> set zs" for a
    by (rule count_mset_0_iff)
  have v: "count (mset zs) a = (if a \<in> set xs \<and> a \<notin> set ys then 1 else 0)" for a
  proof (cases "a \<in> set ys")
    case True
    then have "count (mset ys) a \<noteq> 0" using zy [of a] by blast
    then have "count (mset zs) a = 0"
      using c [of a] x [of a] by (simp del: count_mset_0_iff split: if_splits)
    then show ?thesis using True by simp
  next
    case False
    then have "count (mset ys) a = 0" using zy [of a] by blast
    then show ?thesis using False c [of a] x [of a] by (simp del: count_mset_0_iff)
  qed
  have m: "a \<in> set zs \<longleftrightarrow> a \<in> set xs \<and> a \<notin> set ys" for a
    using v [of a] zz [of a] by (cases "a \<in> set xs \<and> a \<notin> set ys") auto
  have one: "count (mset zs) a = (if a \<in> set zs then 1 else 0)" for a
    using v [of a] m [of a] by simp
  have "distinct zs" unfolding distinct_count_atmost_1 using one by blast
  then show ?thesis using m by auto
qed

lemma short_op: "length device \<le> 30 \<Longrightarrow> snprintf_op op device = op # device"
  by (simp add: snprintf_op_def)

lemma dec_length_small: "n \<le> 255 \<Longrightarrow> length (dec n) \<le> 3"
proof -
  assume n: "n \<le> 255"
  have one: "m < 10 \<Longrightarrow> length (dec m) = 1" for m
    by (subst dec.simps) simp
  have two: "m < 100 \<Longrightarrow> length (dec m) \<le> 2" for m
  proof -
    assume m: "m < 100"
    show ?thesis
    proof (cases "m < 10")
      case True
      then show ?thesis using one [of m] by simp
    next
      case False
      have "m div 10 < 10" using m by simp
      then show ?thesis using False one [of "m div 10"] by (subst dec.simps) simp
    qed
  qed
  show ?thesis
  proof (cases "n < 10")
    case True
    then show ?thesis using one [of n] by simp
  next
    case False
    have "n div 10 < 100" using n by simp
    then show ?thesis using False two [of "n div 10"] by (subst dec.simps) simp
  qed
qed

lemma unnamed_device_loop_minors:
  "distinct ms \<Longrightarrow> list_all (\<lambda>m. m \<le> MAX_MINOR) ms \<Longrightarrow>
   \<exists>ms'. unnamed_device_loop fstypes table (map dec ms) (set ms) = map dec ms' \<and>
         distinct ms' \<and> list_all (\<lambda>m. m \<le> MAX_MINOR) ms'"
proof (induction table arbitrary: ms)
  case Nil
  then show ?case by auto
next
  case (Cons row table)
  let ?m = "devno_minor row"
  show ?case
  proof (cases "devno_major row = 0 \<and> ?m \<notin> set ms \<and> \<not> ?m > MAX_MINOR \<and>
                list_ex (\<lambda>t. fstype row = Some t) fstypes")
    case True
    have d: "distinct (ms @ [?m])" using Cons.prems(1) True by simp
    have l: "list_all (\<lambda>m. m \<le> MAX_MINOR) (ms @ [?m])" using Cons.prems(2) True by simp
    have "unnamed_device_loop fstypes (row # table) (map dec ms) (set ms) =
          unnamed_device_loop fstypes table (map dec (ms @ [?m])) (set (ms @ [?m]))"
      using True by simp
    then show ?thesis using Cons.IH [OF d l] by simp
  next
    case False
    then have "unnamed_device_loop fstypes (row # table) (map dec ms) (set ms) =
          unnamed_device_loop fstypes table (map dec ms) (set ms)"
      by auto
    then show ?thesis using Cons.IH [OF Cons.prems] by simp
  qed
qed

lemma news_distinct_short:
  "distinct (get_unnamed_device_by_fstype fstypes table) \<and>
   list_all (\<lambda>m. length m \<le> 30) (get_unnamed_device_by_fstype fstypes table)"
proof (cases table)
  case None
  then show ?thesis by (simp add: get_unnamed_device_by_fstype_def)
next
  case (Some rows)
  obtain ms where m: "unnamed_device_loop fstypes rows [] {} = map dec ms"
    and d: "distinct ms" and l: "list_all (\<lambda>m. m \<le> MAX_MINOR) ms"
    using unnamed_device_loop_minors [of "[]" fstypes rows] by auto
  have "inj_on dec (set ms)" using dec_inject by (auto simp add: inj_on_def)
  then have d': "distinct (map dec ms)" using d by (simp add: distinct_map)
  have "list_all (\<lambda>m. length m \<le> 30) (map dec ms)"
    using l dec_length_small by (fastforce simp add: list_all_iff MAX_MINOR_def)
  then show ?thesis using d' m Some by (simp add: get_unnamed_device_by_fstype_def)
qed

lemma short_ops: "list_all (\<lambda>m. length m \<le> 30) devices \<Longrightarrow>
   map (snprintf_op op) devices = map ((#) op) devices"
  by (induction devices) (simp_all add: short_op)

text \<open>
  C9. On a mount-table change, when the control file can be read (and is not empty),
  the tracker writes to it strings of one operation each, in one call of
  \<^verbatim>\<open>write_vfs_unnamed_device\<close> each: first \<open>r\<close> with the minor for every minor that was
  published and is not in the new set, then \<open>a\<close> with the minor for every minor of the
  new set that was not published. The removed and the added minors are the differences
  of the two lists, as multisets and, the published list being free of repetitions, as
  sets, each minor once. (A minor read back with more than 30 characters would be cut
  by the buffer of 32 bytes.)
\<close>

theorem mounts_changed_writes:
  assumes "read_vfs_unnamed_device (readback c) = ReadOk olds"
  shows "\<exists>c' removed added.
     mounts_changed fstypes table c = Some c' \<and>
     map fst (writes c') =
       map fst (writes c) @ map (snprintf_op CHR ''r'') removed @
       map (snprintf_op CHR ''a'') added \<and>
     mset removed = mset olds - mset (get_unnamed_device_by_fstype fstypes table) \<and>
     mset added = mset (get_unnamed_device_by_fstype fstypes table) - mset olds \<and>
     set added = set (get_unnamed_device_by_fstype fstypes table) - set olds \<and>
     distinct added \<and>
     (distinct olds \<longrightarrow>
        set removed = set olds - set (get_unnamed_device_by_fstype fstypes table) \<and>
        distinct removed) \<and>
     (list_all (\<lambda>m. length m \<le> 30) olds \<longrightarrow>
        map fst (writes c') =
          map fst (writes c) @ map ((#) CHR ''r'') removed @ map ((#) CHR ''a'') added)"
proof -
  let ?news = "get_unnamed_device_by_fstype fstypes table"
  obtain added removed where
    d: "diff_sorted_lists (sort olds) (sort ?news) = (added, removed)"
    by (cases "diff_sorted_lists (sort olds) (sort ?news)")
  let ?c' = "write_ops CHR ''a'' added (write_ops CHR ''r'' removed c)"
  have u: "mounts_changed fstypes table c = Some ?c'"
    using assms d by (simp add: mounts_changed_def update_vfs_unnamed_device_def)
  have w: "map fst (writes ?c') =
       map fst (writes c) @ map (snprintf_op CHR ''r'') removed @
       map (snprintf_op CHR ''a'') added"
    by (simp add: write_ops_writes)
  have "diff_loop (sort olds) (sort ?news) [] [] = (added, removed)"
    using d by (simp add: diff_sorted_lists_def)
  then have "mset added = mset [] + (mset (sort ?news) - mset (sort olds)) \<and>
             mset removed = mset [] + (mset (sort olds) - mset (sort ?news))"
    by (intro diff_loop_mset) simp_all
  then have ma: "mset added = mset ?news - mset olds"
    and mr: "mset removed = mset olds - mset ?news"
    by simp_all
  have nd: "distinct ?news" and ns: "list_all (\<lambda>m. length m \<le> 30) ?news"
    using news_distinct_short [of fstypes table] by simp_all
  have sa: "set added = set ?news - set olds \<and> distinct added"
    using nd ma by (rule distinct_diff_mset)
  have sr: "distinct olds \<longrightarrow> set removed = set olds - set ?news \<and> distinct removed"
    using mr distinct_diff_mset [of olds removed ?news] by blast
  have added_short: "list_all (\<lambda>m. length m \<le> 30) added"
    using ns sa by (auto simp add: list_all_iff)
  have removed_short: "list_all (\<lambda>m. length m \<le> 30) olds \<longrightarrow>
                       list_all (\<lambda>m. length m \<le> 30) removed"
  proof
    assume o: "list_all (\<lambda>m. length m \<le> 30) olds"
    have "set removed \<subseteq> set olds"
      using mr by (metis in_diffD set_mset_mset subsetI)
    then show "list_all (\<lambda>m. length m \<le> 30) removed"
      using o by (auto simp add: list_all_iff)
  qed
  have ws: "list_all (\<lambda>m. length m \<le> 30) olds \<longrightarrow>
        map fst (writes ?c') =
          map fst (writes c) @ map ((#) CHR ''r'') removed @ map ((#) CHR ''a'') added"
    using w removed_short short_ops [OF added_short] short_ops [of removed] by simp
  show ?thesis
    using u w ma mr sa sr ws
    by (intro exI [of _ ?c'] exI [of _ removed] exI [of _ added]) simp
qed

lemmas tracker_defs = mounts_changed_def update_vfs_unnamed_device_def
  read_vfs_unnamed_device_def g_strsplit_commas_def get_unnamed_device_by_fstype_def
  diff_sorted_lists_def write_vfs_unnamed_device_def snprintf_op_def MAX_MINOR_def
  tracked_fstypes_def sample_mounts_def sample_control_file_def dec_eval

lemma sample_readback:
  "read_vfs_unnamed_device (readback sample_control_file) = ReadOk [''45'', ''30'', ''31'']"
  by (simp add: tracker_defs)

lemma sample_news:
  "get_unnamed_device_by_fstype tracked_fstypes (Some sample_mounts) = [''45'', ''7'']"
  by (simp add: tracker_defs)

theorem mounts_changed_writes_witness:
  "read_vfs_unnamed_device (readback sample_control_file) = ReadOk [''45'', ''30'', ''31''] \<and>
   distinct [''45'', ''30'', ''31''] \<and>
   mounts_changed tracked_fstypes (Some sample_mounts) sample_control_file =
     Some (sample_control_file
             \<lparr>fopen_calls := 3,
              writes := [(''r31'', True), (''r30'', True), (''a7'', True)]\<rparr>) \<and>
   (\<exists>c' removed added.
      mounts_changed tracked_fstypes (Some sample_mounts) sample_control_file = Some c' \<and>
      map fst (writes c') = map ((#) CHR ''r'') removed @ map ((#) CHR ''a'') added \<and>
      set removed = {''30'', ''31''} \<and> set added = {''7''})"
proof -
  have s: "sort [''45'', ''30'', ''31''] = [''30'', ''31'', ''45'']"
    "sort [''45'', ''7''] = [''45'', ''7'']"
    by simp_all
  have m: "mounts_changed tracked_fstypes (Some sample_mounts) sample_control_file =
     Some (sample_control_file
             \<lparr>fopen_calls := 3,
              writes := [(''r31'', True), (''r30'', True), (''a7'', True)]\<rparr>)"
    using sample_readback sample_news s
    by (simp add: mounts_changed_def update_vfs_unnamed_device_def diff_sorted_lists_def
        write_vfs_unnamed_device_def snprintf_op_def)
       (simp add: sample_control_file_def)
  have d: "distinct [''45'', ''30'', ''31'']" by simp
  have l: "list_all (\<lambda>m. length m \<le> 30) [''45'', ''30'', ''31'']" by simp
  from mounts_changed_writes [OF sample_readback, of tracked_fstypes "Some sample_mounts"]
  obtain c' removed added where
    a: "mounts_changed tracked_fstypes (Some sample_mounts) sample_control_file = Some c'"
    and b: "set added = set [''45'', ''7''] - set [''45'', ''30'', ''31'']"
    and c: "set removed = set [''45'', ''30'', ''31''] - set [''45'', ''7'']"
    and w: "map fst (writes c') =
          map fst (writes sample_control_file) @ map ((#) CHR ''r'') removed @
          map ((#) CHR ''a'') added"
    using d l unfolding sample_news by blast
  have b': "set added = {''7''}" using b by auto
  have c': "set removed = {''30'', ''31''}" using c by auto
  have w': "map fst (writes c') = map ((#) CHR ''r'') removed @ map ((#) CHR ''a'') added"
    using w by (simp add: sample_control_file_def)
  show ?thesis using sample_readback d m a b' c' w' by blast
qed

end
